theory Spec2Isabelle
  imports Main "HOL-Library.Word" "HOL-Library.Sublist"
begin

section \<open>Strings\<close>

text \<open>
  A JavaScript string is a sequence of 16-bit code units. Literals of the source are
  written \<open>str ''...''\<close>.
\<close>

type_synonym jsstring = "16 word list"

definition str :: "string \<Rightarrow> jsstring" where
  "str s = map of_char s"

text \<open>
  \<open>String.prototype.trim\<close> removes the code units of WhiteSpace and LineTerminator
  from both ends.
\<close>

definition isWhiteSpace :: "16 word \<Rightarrow> bool" where
  "isWhiteSpace c =
     (c = 0x09 \<or> c = 0x0A \<or> c = 0x0B \<or> c = 0x0C \<or> c = 0x0D \<or> c = 0x20 \<or> c = 0xA0
      \<or> c = 0x1680 \<or> (0x2000 \<le> c \<and> c \<le> 0x200A) \<or> c = 0x2028 \<or> c = 0x2029
      \<or> c = 0x202F \<or> c = 0x205F \<or> c = 0x3000 \<or> c = 0xFEFF)"

definition trim :: "jsstring \<Rightarrow> jsstring" where
  "trim s = rev (dropWhile isWhiteSpace (rev (dropWhile isWhiteSpace s)))"

text \<open>
  Case folding of the \<open>i\<close> flag of a regular expression without the \<open>u\<close> flag: a code
  unit outside ASCII never folds onto an ASCII letter, so only \<open>A\<close>..\<open>Z\<close> are
  identified with \<open>a\<close>..\<open>z\<close>.
\<close>

definition fold_case :: "16 word \<Rightarrow> 16 word" where
  "fold_case c = (if 0x41 \<le> c \<and> c \<le> 0x5A then c + 0x20 else c)"

text \<open>
  The database driver and the cache client send a string in UTF-8. A surrogate code unit
  that is not part of a pair (a high surrogate followed by a low one) has no encoding and
  is sent as U+FFFD; every other code unit arrives as it is. \<open>utf8\<close> is the string that
  arrives, and \<open>characters\<close> the number of characters in such a string, a pair being
  one character.
\<close>

definition is_high_surrogate :: "16 word \<Rightarrow> bool" where
  "is_high_surrogate c = (0xD800 \<le> c \<and> c \<le> 0xDBFF)"

definition is_low_surrogate :: "16 word \<Rightarrow> bool" where
  "is_low_surrogate c = (0xDC00 \<le> c \<and> c \<le> 0xDFFF)"

fun utf8 :: "jsstring \<Rightarrow> jsstring" where
  "utf8 [] = []"
| "utf8 [c] = [if is_high_surrogate c \<or> is_low_surrogate c then 0xFFFD else c]"
| "utf8 (c # d # cs) =
     (if is_high_surrogate c \<and> is_low_surrogate d then c # d # utf8 cs
      else (if is_high_surrogate c \<or> is_low_surrogate c then 0xFFFD else c) # utf8 (d # cs))"

definition characters :: "jsstring \<Rightarrow> nat" where
  "characters s = length (filter (\<lambda>c. \<not> is_low_surrogate c) s)"

section \<open>utils/urlShortener.js\<close>

definition BASE62_CHARS :: jsstring where
  "BASE62_CHARS = str ''0123456789abcdefghijklmnopqrstuvwxyzABCDEFGHIJKLMNOPQRSTUVWXYZ''"

text \<open>
  \<open>crypto.randomBytes(length)\<close> reads the next \<open>length\<close> bytes of the operating
  system's entropy. The entropy is a tape of bytes and a position on it.
\<close>

record entropy =
  tape :: "nat \<Rightarrow> 8 word"
  pos :: nat

definition randomBytes :: "nat \<Rightarrow> entropy \<Rightarrow> 8 word list \<times> entropy" where
  "randomBytes n r = (map (\<lambda>i. tape r (pos r + i)) [0..<n], r\<lparr>pos := pos r + n\<rparr>)"

text \<open>
  \<open>generateShortCode(length)\<close>: one symbol \<open>BASE62_CHARS[bytes[i] % 62]\<close> for each
  \<open>i < length\<close>, appended in order.
\<close>

definition generateShortCode :: "nat \<Rightarrow> entropy \<Rightarrow> jsstring \<times> entropy" where
  "generateShortCode len r =
     (let (bytes, r') = randomBytes len r
      in (map (\<lambda>i. BASE62_CHARS ! (unat (bytes ! i) mod 62)) [0..<len], r'))"

subsection \<open>Numbers\<close>

text \<open>
  \<open>encodeBase62\<close> and \<open>decodeBase62\<close> compute with JavaScript numbers, which are
  IEEE 754 doubles: 53 significant bits, every result rounded to the nearest double, ties
  to the even significand. The values that occur are integers and the two infinities.

  \<open>round_half_even a b\<close> is the integer nearest to \<open>a / b\<close>.
\<close>

datatype number = Finite int | PosInfinity | NegInfinity

fun bit_length :: "nat \<Rightarrow> nat" where
  "bit_length n = (if n = 0 then 0 else Suc (bit_length (n div 2)))"

declare bit_length.simps [simp del]

definition round_half_even :: "nat \<Rightarrow> nat \<Rightarrow> nat" where
  "round_half_even a b =
     (let q = a div b; r = a mod b
      in if 2 * r < b then q
         else if b < 2 * r then q + 1
         else if even q then q else q + 1)"

text \<open>The double nearest to an integer; beyond the largest double it is an infinity.\<close>

definition nearest_double_nat :: "nat \<Rightarrow> nat option" where
  "nearest_double_nat n =
     (if n < 2 ^ 53 then Some n
      else let ulp = 2 ^ (bit_length n - 53);
               v = round_half_even n ulp * ulp
           in if 2 ^ 1024 \<le> v then None else Some v)"

definition nearest_double :: "int \<Rightarrow> number" where
  "nearest_double i =
     (if 0 \<le> i then (case nearest_double_nat (nat i) of
                        None \<Rightarrow> PosInfinity | Some v \<Rightarrow> Finite (int v))
      else (case nearest_double_nat (nat (- i)) of
              None \<Rightarrow> NegInfinity | Some v \<Rightarrow> Finite (- int v)))"

text \<open>
  \<open>Math.floor(num / 62)\<close> for a double \<open>num\<close> that is a natural number: the quotient
  is rounded to a double first, then floored. With \<open>q = num div 62\<close> of \<open>bits\<close> bits
  the quotient lies in \<open>[2^(bits-1), 2^bits)\<close>, where doubles are \<open>2^(bits-53)\<close>
  apart; a quotient below 1 rounds to a double below 1.
\<close>

definition floor_div_62 :: "nat \<Rightarrow> nat" where
  "floor_div_62 num =
     (let q = num div 62; bits = bit_length q
      in if q = 0 then 0
         else if 53 \<le> bits then
           round_half_even num (62 * 2 ^ (bits - 53)) * 2 ^ (bits - 53)
         else
           round_half_even (num * 2 ^ (53 - bits)) 62 div 2 ^ (53 - bits))"

text \<open>\<open>decoded * 62\<close> and \<open>\<dots> + index\<close>, each rounded.\<close>

definition times_62 :: "number \<Rightarrow> number" where
  "times_62 x = (case x of Finite a \<Rightarrow> nearest_double (a * 62) | _ \<Rightarrow> x)"

definition plus_index :: "number \<Rightarrow> int \<Rightarrow> number" where
  "plus_index x i = (case x of Finite a \<Rightarrow> nearest_double (a + i) | _ \<Rightarrow> x)"

text \<open>\<open>String.prototype.indexOf\<close> for one code unit: the first position, or -1.\<close>

fun indexOf :: "jsstring \<Rightarrow> 16 word \<Rightarrow> int" where
  "indexOf [] c = - 1"
| "indexOf (x # xs) c =
     (if x = c then 0 else (let i = indexOf xs c in if i < 0 then - 1 else i + 1))"

subsection \<open>encodeBase62 and decodeBase62\<close>

text \<open>
  The \<open>while (num > 0)\<close> loop of \<open>encodeBase62\<close>, with the variables \<open>num\<close> and
  \<open>encoded\<close>. \<open>num % 62\<close> is exact on doubles. The argument \<open>num\<close> is the value of a
  double that is a natural number.
\<close>

lemma round_half_even_le: "round_half_even a b \<le> a div b + 1"
  by (simp add: round_half_even_def Let_def)

lemma bit_length_bound: "0 < n \<Longrightarrow> 2 ^ (bit_length n - 1) \<le> n"
proof (induction n rule: bit_length.induct)
  case (1 n)
  show ?case
  proof (cases "n div 2 = 0")
    case True
    with "1.prems" show ?thesis
      by (subst bit_length.simps, subst bit_length.simps) simp
  next
    case False
    with "1.IH" "1.prems" have "2 ^ (bit_length (n div 2) - 1) \<le> n div 2" by simp
    moreover have "0 < bit_length (n div 2)"
      using False by (subst bit_length.simps) simp
    ultimately have "2 * 2 ^ (bit_length (n div 2) - 1) \<le> n" by simp
    moreover have "bit_length n - 1 = Suc (bit_length (n div 2) - 1)"
      using "1.prems" \<open>0 < bit_length (n div 2)\<close> by (subst bit_length.simps) simp
    ultimately show ?thesis by simp
  qed
qed

lemma floor_div_62_less: "0 < num \<Longrightarrow> floor_div_62 num < num"
proof -
  assume pos: "0 < num"
  define q where "q = num div 62"
  define bits where "bits = bit_length q"
  show ?thesis
  proof (cases "q = 0")
    case True
    with pos show ?thesis by (simp add: floor_div_62_def q_def [symmetric])
  next
    case q0: False
    then have q1: "1 \<le> q" by simp
    have numq: "62 * q \<le> num" unfolding q_def by simp
    show ?thesis
    proof (cases "53 \<le> bits")
      case True
      define u :: nat where "u = 2 ^ (bits - 53)"
      have u0: "0 < u" by (simp add: u_def)
      have "u \<le> 2 ^ (bits - 1)" unfolding u_def by (rule power_increasing) simp_all
      also have "\<dots> \<le> q" unfolding bits_def using q0 bit_length_bound [of q] by simp
      finally have uq: "u \<le> q" .
      have "round_half_even num (62 * u) * u \<le> (num div (62 * u) + 1) * u"
        by (rule mult_right_mono) (rule round_half_even_le, simp)
      also have "\<dots> = num div (62 * u) * u + u" by (simp add: algebra_simps)
      also have "num div (62 * u) * u \<le> num div 62"
      proof -
        have "num div (62 * u) = (num div 62) div u" by (simp add: div_mult2_eq)
        then show ?thesis by (simp add: div_times_less_eq_dividend)
      qed
      finally have "round_half_even num (62 * u) * u \<le> q + q"
        using uq by (simp add: q_def)
      also have "\<dots> < num" using numq q1 by simp
      finally show ?thesis
        using q0 True by (simp add: floor_div_62_def q_def [symmetric] bits_def [symmetric] u_def Let_def)
    next
      case False
      define p :: nat where "p = 2 ^ (53 - bits)"
      have p0: "0 < p" by (simp add: p_def)
      have "round_half_even (num * p) 62 div p \<le> (num * p div 62 + 1) div p"
        by (rule div_le_mono) (rule round_half_even_le)
      also have "\<dots> \<le> (num * p + p) div p"
      proof (rule div_le_mono)
        have "num * p div 62 \<le> num * p" by simp
        moreover have "1 \<le> p" using p0 by simp
        ultimately show "num * p div 62 + 1 \<le> num * p + p" by simp
      qed
      also have "\<dots> = num + 1" using p0 by simp
      finally have le: "round_half_even (num * p) 62 div p \<le> num + 1" .
      have "round_half_even (num * p) 62 div p \<le> (num * p div 62 + 1) div p"
        by (rule div_le_mono) (rule round_half_even_le)
      also have "\<dots> \<le> (q * p + p + p) div p"
      proof (rule div_le_mono)
        have "num * p div 62 \<le> (num div 62) * p + p"
        proof -
          have "num = 62 * q + num mod 62" by (simp add: q_def)
          then have "num * p = 62 * (q * p) + (num mod 62) * p" by (metis distrib_right mult.assoc)
          then have "num * p div 62 = q * p + (num mod 62) * p div 62" by simp
          moreover have "(num mod 62) * p div 62 \<le> p"
          proof -
            have "(num mod 62) * p \<le> 62 * p" by (rule mult_right_mono) simp_all
            then have "(num mod 62) * p div 62 \<le> 62 * p div 62" by (rule div_le_mono)
            then show ?thesis by simp
          qed
          ultimately show ?thesis by (simp add: q_def)
        qed
        then show "num * p div 62 + 1 \<le> q * p + p + p" using p0 by (simp add: q_def)
      qed
      also have "\<dots> = q + 2"
      proof -
        have "q * p + p + p = (q + 2) * p" by (simp add: algebra_simps)
        then show ?thesis using p0 by simp
      qed
      also have "\<dots> < num" using numq q1 by simp
      finally show ?thesis
        using q0 False by (simp add: floor_div_62_def q_def [symmetric] bits_def [symmetric] p_def Let_def)
    qed
  qed
qed

function encodeBase62_loop :: "nat \<Rightarrow> jsstring \<Rightarrow> jsstring" where
  "encodeBase62_loop num encoded =
     (if 0 < num
      then encodeBase62_loop (floor_div_62 num) (BASE62_CHARS ! (num mod 62) # encoded)
      else encoded)"
  by pat_completeness auto
termination
  by (relation "measure fst") (simp_all add: floor_div_62_less)

declare encodeBase62_loop.simps [simp del]

definition encodeBase62 :: "nat \<Rightarrow> jsstring" where
  "encodeBase62 num = (if num = 0 then [BASE62_CHARS ! 0] else encodeBase62_loop num [])"

definition decodeBase62 :: "jsstring \<Rightarrow> number" where
  "decodeBase62 s =
     foldl (\<lambda>decoded c. plus_index (times_62 decoded) (indexOf BASE62_CHARS c)) (Finite 0) s"

subsection \<open>isValidUrl and normalizeUrl\<close>

text \<open>
  \<open>new URL(url)\<close> is the platform's parser: it returns an object with a \<open>protocol\<close>
  field or throws a \<open>TypeError\<close>. The parser is a parameter of the model.
\<close>

datatype db_error =
    unique_violation
  | foreign_key_violation
  | not_null_violation
  | numeric_value_out_of_range
  | string_data_right_truncation
  | character_not_in_repertoire
  | connection_failure

datatype error =
    TypeError
  | RangeError
  | Invalid_URL_format
  | Failed_to_generate_unique_short_code
  | Database db_error

record url_object =
  protocol :: jsstring

record platform =
  URL_new :: "jsstring \<Rightarrow> error + url_object"
  env_SHORT_CODE_LENGTH :: "int option"
  env_BASE_URL :: jsstring

text \<open>
  \<open>SHORT_CODE_LENGTH = parseInt(process.env.SHORT_CODE_LENGTH) || 6\<close>:
  \<open>env_SHORT_CODE_LENGTH\<close> is what \<open>parseInt\<close> returns, an integer of either sign or
  \<open>NaN\<close> (\<open>None\<close>: an unset variable, or one that is no number). \<open>NaN\<close> and 0 are
  falsy and give 6.
\<close>

definition SHORT_CODE_LENGTH :: "platform \<Rightarrow> int" where
  "SHORT_CODE_LENGTH P =
     (case env_SHORT_CODE_LENGTH P of
        None \<Rightarrow> 6
      | Some n \<Rightarrow> if n = 0 then 6 else n)"

text \<open>
  \<open>generateShortCode()\<close> with the default length \<open>SHORT_CODE_LENGTH\<close>:
  \<open>crypto.randomBytes\<close> throws a \<open>RangeError\<close> for a negative size, before any byte
  is read. The upper limits of the platform on sizes are not modelled.
\<close>

definition generateShortCode_default :: "platform \<Rightarrow> entropy \<Rightarrow> error + jsstring \<times> entropy" where
  "generateShortCode_default P r =
     (if SHORT_CODE_LENGTH P < 0 then Inl RangeError
      else Inr (generateShortCode (nat (SHORT_CODE_LENGTH P)) r))"

text \<open>
  \<open>isValidUrl\<close>: the statements inside \<open>try\<close> first, where the parser's exception is
  still an error value, then the function with its \<open>catch\<close>.
\<close>

definition isValidUrl_try :: "platform \<Rightarrow> jsstring \<Rightarrow> error + bool" where
  "isValidUrl_try P url =
     (case URL_new P url of
        Inl e \<Rightarrow> Inl e
      | Inr urlObj \<Rightarrow> Inr (protocol urlObj = str ''http:'' \<or> protocol urlObj = str ''https:''))"

definition isValidUrl :: "platform \<Rightarrow> jsstring \<Rightarrow> error + bool" where
  "isValidUrl P url =
     (case isValidUrl_try P url of
        Inl e \<Rightarrow> Inr False
      | Inr b \<Rightarrow> Inr b)"

text \<open>
  \<open>normalizeUrl\<close>. The test \<open>/^https?:\/\//i\<close> holds when the string starts with
  \<open>http://\<close> or \<open>https://\<close> in any letter case; \<open>replace(/\/$/, '')\<close> removes one
  \<open>/\<close> when it is the last code unit.
\<close>

definition match_scheme :: "jsstring \<Rightarrow> bool" where
  "match_scheme s =
     (map fold_case (take 7 s) = str ''http://'' \<or> map fold_case (take 8 s) = str ''https://'')"

definition remove_trailing_slash :: "jsstring \<Rightarrow> jsstring" where
  "remove_trailing_slash s = (if s \<noteq> [] \<and> last s = 0x2F then butlast s else s)"

definition normalizeUrl :: "jsstring \<Rightarrow> jsstring" where
  "normalizeUrl url =
     (let normalized = trim url;
          normalized = (if \<not> match_scheme normalized then str ''https://'' @ normalized
                        else normalized)
      in remove_trailing_slash normalized)"

section \<open>The durable store (database schema, config/database.js)\<close>

text \<open>
  The two tables. Timestamps are readings of a clock. The \<open>id\<close> columns are left out:
  the service never reads them. \<open>short_code\<close> of \<open>urls\<close> is \<open>VARCHAR(10) UNIQUE NOT NULL\<close>,
  \<open>short_code\<close> of \<open>clicks\<close> is \<open>VARCHAR(10) REFERENCES urls(short_code)\<close>,
  \<open>ip_address\<close> is \<open>VARCHAR(45)\<close>, \<open>click_count\<close> is a 32-bit \<open>INTEGER\<close>; the other
  strings are \<open>TEXT\<close>.
\<close>

record url_row =
  short_code :: jsstring
  original_url :: jsstring
  created_at :: nat
  click_count :: int
  last_accessed :: "nat option"

record click_row =
  clicks_short_code :: jsstring
  clicked_at :: nat
  ip_address :: "jsstring option"
  user_agent :: "jsstring option"
  clicks_referrer :: "jsstring option"

record tables =
  urls :: "url_row list"
  clicks :: "click_row list"

text \<open>The SQL statements of \<open>createShortUrl\<close>, \<open>getOriginalUrl\<close> and
  \<open>incrementClickCount\<close>, with their parameters.\<close>

datatype statement =
    SELECT_urls_WHERE_original_url jsstring
  | SELECT_id_WHERE_short_code jsstring
  | INSERT_INTO_urls "jsstring option" jsstring
  | SELECT_urls_WHERE_short_code jsstring
  | UPDATE_urls_SET_click_count jsstring
  | INSERT_INTO_clicks jsstring "jsstring option" "jsstring option" "jsstring option"

text \<open>
  A text parameter of a statement: the database receives the string in UTF-8 and refuses
  one that contains the character U+0000 (error 22021). \<open>undefined\<close> and \<open>null\<close>
  arrive as \<open>NULL\<close>.
\<close>

definition text_param :: "jsstring \<Rightarrow> db_error + jsstring" where
  "text_param s = (if 0 \<in> set s then Inl character_not_in_repertoire else Inr (utf8 s))"

definition text_param_null :: "jsstring option \<Rightarrow> db_error + jsstring option" where
  "text_param_null x =
     (case x of
        None \<Rightarrow> Inr None
      | Some s \<Rightarrow> (case text_param s of Inl e \<Rightarrow> Inl e | Inr t \<Rightarrow> Inr (Some t)))"

text \<open>
  Storing a received string in a \<open>VARCHAR(n)\<close> column: a string of more than \<open>n\<close>
  characters is an error (22001), unless all the characters beyond the \<open>n\<close>-th are
  spaces, which are then cut off.
\<close>

definition varchar :: "nat \<Rightarrow> jsstring \<Rightarrow> db_error + jsstring" where
  "varchar n s =
     (if characters s \<le> n then Inr s
      else let keep = length s - (characters s - n)
           in if list_all (\<lambda>c. c = 0x20) (drop keep s) then Inr (take keep s)
              else Inl string_data_right_truncation)"

definition varchar_null :: "nat \<Rightarrow> jsstring option \<Rightarrow> db_error + jsstring option" where
  "varchar_null n x =
     (case x of
        None \<Rightarrow> Inr None
      | Some s \<Rightarrow> (case varchar n s of Inl e \<Rightarrow> Inl e | Inr t \<Rightarrow> Inr (Some t)))"

text \<open>
  What the database does with a statement at time \<open>now\<close>: the rows of the result
  (\<open>result.rows\<close>) and the tables afterwards, or an error. The parameters are received
  first; then a value that does not fit its column or a violated constraint is an error.
  The \<open>SELECT\<close> of the \<open>id\<close> column returns the rows here: the service only counts
  them.
\<close>

fun execute :: "statement \<Rightarrow> nat \<Rightarrow> tables \<Rightarrow> db_error + (url_row list \<times> tables)" where
  "execute (SELECT_urls_WHERE_original_url url) now d =
     (case text_param url of
        Inl e \<Rightarrow> Inl e
      | Inr u \<Rightarrow> Inr (filter (\<lambda>r. original_url r = u) (urls d), d))"
| "execute (SELECT_id_WHERE_short_code code) now d =
     (case text_param code of
        Inl e \<Rightarrow> Inl e
      | Inr c \<Rightarrow> Inr (filter (\<lambda>r. short_code r = c) (urls d), d))"
| "execute (SELECT_urls_WHERE_short_code code) now d =
     (case text_param code of
        Inl e \<Rightarrow> Inl e
      | Inr c \<Rightarrow> Inr (filter (\<lambda>r. short_code r = c) (urls d), d))"
| "execute (INSERT_INTO_urls code url) now d =
     (case text_param_null code of
        Inl e \<Rightarrow> Inl e
      | Inr None \<Rightarrow>
          (case text_param url of
             Inl e \<Rightarrow> Inl e
           | Inr u \<Rightarrow> Inl not_null_violation)
      | Inr (Some c) \<Rightarrow>
          (case text_param url of
             Inl e \<Rightarrow> Inl e
           | Inr u \<Rightarrow>
               (case varchar 10 c of
                  Inl e \<Rightarrow> Inl e
                | Inr stored \<Rightarrow>
                    if stored \<in> short_code ` set (urls d) then Inl unique_violation
                    else let row = \<lparr>short_code = stored, original_url = u, created_at = now,
                                      click_count = 0, last_accessed = None\<rparr>
                         in Inr ([row], d\<lparr>urls := urls d @ [row]\<rparr>))))"
| "execute (UPDATE_urls_SET_click_count code) now d =
     (case text_param code of
        Inl e \<Rightarrow> Inl e
      | Inr c \<Rightarrow>
          if \<exists>r \<in> set (urls d). short_code r = c \<and> 2147483647 < click_count r + 1
          then Inl numeric_value_out_of_range
          else Inr ([], d\<lparr>urls := map (\<lambda>r. if short_code r = c
                                             then r\<lparr>click_count := click_count r + 1,
                                                    last_accessed := Some now\<rparr>
                                             else r) (urls d)\<rparr>))"
| "execute (INSERT_INTO_clicks code ip ua ref) now d =
     (case text_param code of
        Inl e \<Rightarrow> Inl e
      | Inr c \<Rightarrow>
     (case text_param_null ip of
        Inl e \<Rightarrow> Inl e
      | Inr i \<Rightarrow>
     (case text_param_null ua of
        Inl e \<Rightarrow> Inl e
      | Inr u \<Rightarrow>
     (case text_param_null ref of
        Inl e \<Rightarrow> Inl e
      | Inr f \<Rightarrow>
     (case varchar 10 c of
        Inl e \<Rightarrow> Inl e
      | Inr stored \<Rightarrow>
     (case varchar_null 45 i of
        Inl e \<Rightarrow> Inl e
      | Inr stored_ip \<Rightarrow>
          if stored \<notin> short_code ` set (urls d) then Inl foreign_key_violation
          else Inr ([], d\<lparr>clicks := clicks d @
                 [\<lparr>clicks_short_code = stored, clicked_at = now,
                   ip_address = stored_ip, user_agent = u,
                   clicks_referrer = f\<rparr>]\<rparr>)))))))"

text \<open>
  The cache holds JSON values \<open>{originalUrl, shortCode}\<close> under the keys \<open>url:<code>\<close>
  and counters under the keys \<open>clicks:<code>\<close>; no key has both prefixes. Expiry is not
  modelled: every statement below is about one call and holds for any cache content.
\<close>

record url_pair =
  originalUrl :: jsstring
  shortCode :: jsstring

record redis_store =
  entries :: "jsstring \<rightharpoonup> url_pair"
  counters :: "jsstring \<rightharpoonup> int"

text \<open>
  The world a request runs in. Besides the tables and the cache it holds what the
  service cannot control: for each coming call of \<open>db.query\<close> whether the database
  answers from the tables (\<open>Proceed\<close>) or the call is rejected with an error for a
  reason that the tables do not show (\<open>Throw\<close>: a lost connection, or a constraint
  that another request's write has just made fail), and for each coming call of the
  cache client whether it fails. A list that has run out means no further failures.
  \<open>db_log\<close> is the log that \<open>query\<close> of config/database.js writes.
\<close>

datatype db_event = Proceed | Throw db_error

record world =
  db :: tables
  db_env :: "db_event list"
  db_log :: "statement list"
  redis :: redis_store
  redis_env :: "bool list"
  clock :: nat
  rnd :: entropy

definition next_db_event :: "world \<Rightarrow> db_event" where
  "next_db_event w = (case db_env w of [] \<Rightarrow> Proceed | ev # _ \<Rightarrow> ev)"

definition next_redis_fails :: "world \<Rightarrow> bool" where
  "next_redis_fails w = (case redis_env w of [] \<Rightarrow> False | b # _ \<Rightarrow> b)"

text \<open>\<open>db.query\<close>: runs the statement and returns the rows, or rethrows the error.\<close>

definition query :: "statement \<Rightarrow> world \<Rightarrow> (error + url_row list) \<times> world" where
  "query st w =
     (let w1 = w\<lparr>db_log := db_log w @ [st], db_env := tl (db_env w)\<rparr>
      in case next_db_event w of
           Throw e \<Rightarrow> (Inl (Database e), w1)
         | Proceed \<Rightarrow>
             (case execute st (clock w) (db w) of
                Inl e \<Rightarrow> (Inl (Database e), w1)
              | Inr (rows, d) \<Rightarrow> (Inr rows, w1\<lparr>db := d\<rparr>)))"

section \<open>The cache helpers (config/redis.js)\<close>

text \<open>Each helper catches the client's error and returns \<open>null\<close> or \<open>false\<close>. The
  cache receives the key in UTF-8; the values are JSON texts, which escape what UTF-8
  cannot carry, and come back as they were.\<close>

definition cache_get :: "jsstring \<Rightarrow> world \<Rightarrow> url_pair option \<times> world" where
  "cache_get key w =
     (let w1 = w\<lparr>redis_env := tl (redis_env w)\<rparr>
      in if next_redis_fails w then (None, w1) else (entries (redis w) (utf8 key), w1))"

definition cache_set :: "jsstring \<Rightarrow> url_pair \<Rightarrow> world \<Rightarrow> bool \<times> world" where
  "cache_set key v w =
     (let w1 = w\<lparr>redis_env := tl (redis_env w)\<rparr>
      in if next_redis_fails w then (False, w1)
         else (True, w1\<lparr>redis := (redis w)\<lparr>entries := (entries (redis w))(utf8 key \<mapsto> v)\<rparr>\<rparr>))"

text \<open>\<open>INCR\<close> creates the counter at 1 and fails on a counter at the largest 64-bit
  integer.\<close>

definition cache_incr :: "jsstring \<Rightarrow> world \<Rightarrow> int option \<times> world" where
  "cache_incr key w =
     (let w1 = w\<lparr>redis_env := tl (redis_env w)\<rparr>;
          n = (case counters (redis w) (utf8 key) of None \<Rightarrow> 0 | Some c \<Rightarrow> c)
      in if next_redis_fails w \<or> n = 9223372036854775807 then (None, w1)
         else (Some (n + 1), w1\<lparr>redis := (redis w)\<lparr>counters := (counters (redis w))(utf8 key \<mapsto> n + 1)\<rparr>\<rparr>))"

section \<open>services/urlService.js\<close>

record created = url_pair +
  shortUrl :: jsstring
  createdAt :: "nat option"
  isNew :: bool

record resolved = url_pair +
  source :: jsstring

record metadata =
  ipAddress :: "jsstring option"
  userAgent :: "jsstring option"
  referrer :: "jsstring option"

text \<open>A value is truthy when it is a non-empty string; \<open>x || null\<close> keeps a truthy
  \<open>x\<close>.\<close>

definition truthy :: "jsstring option \<Rightarrow> bool" where
  "truthy x = (case x of None \<Rightarrow> False | Some s \<Rightarrow> s \<noteq> [])"

definition or_null :: "jsstring option \<Rightarrow> jsstring option" where
  "or_null x = (if truthy x then x else None)"

definition maxAttempts :: nat where
  "maxAttempts = 5"

text \<open>
  The \<open>while (attempts < maxAttempts)\<close> loop of \<open>createShortUrl\<close>, with the variables
  \<open>shortCode\<close> (here \<open>generated\<close>, at first \<open>undefined\<close>) and \<open>attempts\<close>: it returns
  their values when the loop is left, or the error of the generator or of the lookup.
\<close>

function createShortUrl_loop ::
  "platform \<Rightarrow> jsstring option \<Rightarrow> nat \<Rightarrow> world \<Rightarrow> (error + jsstring option \<times> nat) \<times> world" where
  "createShortUrl_loop P generated attempts w =
     (if attempts < maxAttempts then
        (case generateShortCode_default P (rnd w) of
           Inl e \<Rightarrow> (Inl e, w)
         | Inr (code, r) \<Rightarrow>
             (case query (SELECT_id_WHERE_short_code code) (w\<lparr>rnd := r\<rparr>) of
                (Inl e, w2) \<Rightarrow> (Inl e, w2)
              | (Inr rows, w2) \<Rightarrow>
                  if length rows = 0 then (Inr (Some code, attempts), w2)
                  else createShortUrl_loop P (Some code) (attempts + 1) w2))
      else (Inr (generated, attempts), w))"
  by pat_completeness auto
termination
  by (relation "measure (\<lambda>(P, generated, attempts, w). maxAttempts - attempts)") auto

declare createShortUrl_loop.simps [simp del]

text \<open>A template literal prints \<open>undefined\<close> for a variable without a value.\<close>

definition to_string :: "jsstring option \<Rightarrow> jsstring" where
  "to_string x = (case x of None \<Rightarrow> str ''undefined'' | Some s \<Rightarrow> s)"

definition url_key :: "jsstring \<Rightarrow> jsstring" where
  "url_key code = str ''url:'' @ code"

definition clicks_key :: "jsstring \<Rightarrow> jsstring" where
  "clicks_key code = str ''clicks:'' @ code"

definition createShortUrl :: "platform \<Rightarrow> jsstring \<Rightarrow> world \<Rightarrow> (error + created) \<times> world" where
  "createShortUrl P url w =
     (case isValidUrl P url of
        Inl e \<Rightarrow> (Inl e, w)
      | Inr valid \<Rightarrow>
          if \<not> valid then (Inl Invalid_URL_format, w)
          else
            let normalized = normalizeUrl url
            in case query (SELECT_urls_WHERE_original_url normalized) w of
                 (Inl e, w1) \<Rightarrow> (Inl e, w1)
               | (Inr (existing # _), w1) \<Rightarrow>
                   (case cache_set (url_key (short_code existing))
                           \<lparr>originalUrl = original_url existing,
                            shortCode = short_code existing\<rparr> w1 of
                      (_, w2) \<Rightarrow>
                        (Inr \<lparr>originalUrl = original_url existing,
                              shortCode = short_code existing,
                              shortUrl = env_BASE_URL P @ str ''/'' @ short_code existing,
                              createdAt = None, isNew = False\<rparr>, w2))
               | (Inr [], w1) \<Rightarrow>
                   (case createShortUrl_loop P None 0 w1 of
                      (Inl e, w2) \<Rightarrow> (Inl e, w2)
                    | (Inr (generated, attempts), w2) \<Rightarrow>
                        if attempts = maxAttempts
                        then (Inl Failed_to_generate_unique_short_code, w2)
                        else
                          (case query (INSERT_INTO_urls generated normalized) w2 of
                             (Inl e, w3) \<Rightarrow> (Inl e, w3)
                           | (Inr [], w3) \<Rightarrow> (Inl TypeError, w3)
                           | (Inr (newUrl # _), w3) \<Rightarrow>
                               (case cache_set (url_key (to_string generated))
                                       \<lparr>originalUrl = original_url newUrl,
                                        shortCode = short_code newUrl\<rparr> w3 of
                                  (_, w4) \<Rightarrow>
                                    (Inr \<lparr>originalUrl = original_url newUrl,
                                          shortCode = short_code newUrl,
                                          shortUrl = env_BASE_URL P @ str ''/'' @ short_code newUrl,
                                          createdAt = Some (created_at newUrl),
                                          isNew = True\<rparr>, w4)))))"

text \<open>\<open>getOriginalUrl\<close>: \<open>null\<close> is \<open>None\<close>.\<close>

definition getOriginalUrl :: "jsstring \<Rightarrow> world \<Rightarrow> (error + resolved option) \<times> world" where
  "getOriginalUrl code w =
     (case cache_get (url_key code) w of
        (Some cached, w1) \<Rightarrow>
          (Inr (Some \<lparr>originalUrl = originalUrl cached, shortCode = shortCode cached,
                      source = str ''cache''\<rparr>), w1)
      | (None, w1) \<Rightarrow>
          (case query (SELECT_urls_WHERE_short_code code) w1 of
             (Inl e, w2) \<Rightarrow> (Inl e, w2)
           | (Inr [], w2) \<Rightarrow> (Inr None, w2)
           | (Inr (urlData # _), w2) \<Rightarrow>
               (case cache_set (url_key code)
                       \<lparr>originalUrl = original_url urlData,
                        shortCode = short_code urlData\<rparr> w2 of
                  (_, w3) \<Rightarrow>
                    (Inr (Some \<lparr>originalUrl = original_url urlData,
                                shortCode = short_code urlData,
                                source = str ''database''\<rparr>), w3))))"

text \<open>
  \<open>incrementClickCount\<close>: the statements inside \<open>try\<close> first, where an error of the
  store ends the block, then the function with its \<open>catch\<close>, which logs the error and
  returns.
\<close>

definition incrementClickCount_try :: "jsstring \<Rightarrow> metadata \<Rightarrow> world \<Rightarrow> (error + unit) \<times> world" where
  "incrementClickCount_try code md w =
     (case query (UPDATE_urls_SET_click_count code) w of
        (Inl e, w1) \<Rightarrow> (Inl e, w1)
      | (Inr _, w1) \<Rightarrow>
          (case (if truthy (ipAddress md) \<or> truthy (userAgent md)
                 then query (INSERT_INTO_clicks code (or_null (ipAddress md))
                               (or_null (userAgent md)) (or_null (referrer md))) w1
                 else (Inr [], w1)) of
             (Inl e, w2) \<Rightarrow> (Inl e, w2)
           | (Inr _, w2) \<Rightarrow>
               (case cache_incr (clicks_key code) w2 of (_, w3) \<Rightarrow> (Inr (), w3))))"

definition incrementClickCount :: "jsstring \<Rightarrow> metadata \<Rightarrow> world \<Rightarrow> (error + unit) \<times> world" where
  "incrementClickCount code md w =
     (case incrementClickCount_try code md w of
        (Inl e, w1) \<Rightarrow> (Inr (), w1)
      | (Inr u, w1) \<Rightarrow> (Inr u, w1))"

section \<open>The redirect route (main server file)\<close>

text \<open>
  \<open>GET /:shortCode\<close>. The handler starts \<open>incrementClickCount\<close> without waiting for
  it and attaches a \<open>catch\<close> to it; here the accounting runs before the response is
  made, and its outcome is not looked at.
\<close>

datatype response =
    Send nat jsstring
  | SendFile nat jsstring
  | Redirect nat jsstring

definition redirect_route :: "jsstring \<Rightarrow> metadata \<Rightarrow> world \<Rightarrow> response \<times> world" where
  "redirect_route code md w =
     (if 0x2E \<in> set code then (Send 404 (str ''Not found''), w)
      else case getOriginalUrl code w of
             (Inl e, w1) \<Rightarrow> (Send 500 (str ''Internal server error''), w1)
           | (Inr None, w1) \<Rightarrow> (SendFile 404 (str ''404.html''), w1)
           | (Inr (Some urlData), w1) \<Rightarrow>
               (case incrementClickCount code md w1 of
                  (_, w2) \<Rightarrow> (Redirect 301 (originalUrl urlData), w2)))"

section \<open>Notions used in the statements\<close>

text \<open>A string that the stores accept and keep as it is: it has no character U+0000 and
  no surrogate outside a pair. A code unit is plain when it is no surrogate.\<close>

definition storable_text :: "jsstring \<Rightarrow> bool" where
  "storable_text s = (0 \<notin> set s \<and> utf8 s = s)"

definition plain :: "16 word \<Rightarrow> bool" where
  "plain c = (\<not> is_high_surrogate c \<and> \<not> is_low_surrogate c)"

text \<open>The 62 symbols by their kind: digits, lowercase letters, uppercase letters.\<close>

definition base62_symbol :: "16 word \<Rightarrow> bool" where
  "base62_symbol c =
     ((0x30 \<le> c \<and> c \<le> 0x39) \<or> (0x61 \<le> c \<and> c \<le> 0x7A) \<or> (0x41 \<le> c \<and> c \<le> 0x5A))"

text \<open>The body of the \<open>for\<close> loop of \<open>decodeBase62\<close>.\<close>

definition decode_step :: "number \<Rightarrow> 16 word \<Rightarrow> number" where
  "decode_step decoded c = plus_index (times_62 decoded) (indexOf BASE62_CHARS c)"

text \<open>The strings that \<open>/^https?:\/\//i\<close> matches in full.\<close>

definition scheme_prefix :: "jsstring \<Rightarrow> bool" where
  "scheme_prefix pre =
     (map fold_case pre = str ''http://'' \<or> map fold_case pre = str ''https://'')"

text \<open>
  A small stand-in for the platform's parser, to run the examples: it accepts a string
  that starts with \<open>http://\<close>, \<open>https://\<close> or \<open>ftp://\<close> and goes on after it. The
  theorems hold for every parser.
\<close>

definition example_URL :: "jsstring \<Rightarrow> error + url_object" where
  "example_URL s =
     (let t = map fold_case s
      in if take 7 t = str ''http://'' \<and> 7 < length t then Inr \<lparr>protocol = str ''http:''\<rparr>
         else if take 8 t = str ''https://'' \<and> 8 < length t then Inr \<lparr>protocol = str ''https:''\<rparr>
         else if take 6 t = str ''ftp://'' \<and> 6 < length t then Inr \<lparr>protocol = str ''ftp:''\<rparr>
         else Inl TypeError)"

definition example_platform :: platform where
  "example_platform =
     \<lparr>URL_new = example_URL, env_SHORT_CODE_LENGTH = None,
      env_BASE_URL = str ''http://localhost:3000''\<rparr>"

text \<open>
  For \<open>createShortUrl\<close>: the short codes in use; the \<open>k\<close>-th code that a call starting in
  world \<open>w\<close> generates; the lookups by code and the inserts among logged statements; the
  statements logged between two worlds; the world after one lookup of the loop and after
  the lookup by URL; the row that an insert creates.
\<close>

definition taken :: "world \<Rightarrow> jsstring set" where
  "taken w = short_code ` set (urls (db w))"

definition nth_code :: "platform \<Rightarrow> world \<Rightarrow> nat \<Rightarrow> jsstring" where
  "nth_code P w k =
     fst (generateShortCode (nat (SHORT_CODE_LENGTH P))
            ((rnd w)\<lparr>pos := pos (rnd w) + k * nat (SHORT_CODE_LENGTH P)\<rparr>))"

fun is_lookup :: "statement \<Rightarrow> bool" where
  "is_lookup (SELECT_id_WHERE_short_code code) = True"
| "is_lookup st = False"

fun is_insert :: "statement \<Rightarrow> bool" where
  "is_insert (INSERT_INTO_urls code url) = True"
| "is_insert st = False"

definition issued :: "world \<Rightarrow> world \<Rightarrow> statement list" where
  "issued w w' = drop (length (db_log w)) (db_log w')"

definition after_lookup :: "platform \<Rightarrow> world \<Rightarrow> world" where
  "after_lookup P w =
     w\<lparr>rnd := snd (generateShortCode (nat (SHORT_CODE_LENGTH P)) (rnd w)),
       db_log := db_log w @ [SELECT_id_WHERE_short_code (nth_code P w 0)],
       db_env := tl (db_env w)\<rparr>"

definition after_dedup :: "jsstring \<Rightarrow> world \<Rightarrow> world" where
  "after_dedup url w =
     w\<lparr>db_log := db_log w @ [SELECT_urls_WHERE_original_url (normalizeUrl url)],
       db_env := tl (db_env w)\<rparr>"

definition new_url_row :: "jsstring \<Rightarrow> jsstring \<Rightarrow> nat \<Rightarrow> url_row" where
  "new_url_row code url now =
     \<lparr>short_code = code, original_url = url, created_at = now, click_count = 0,
      last_accessed = None\<rparr>"

text \<open>A store with one mapping, an empty cache, and no failures to come; the same with
  the mapping cached; and the latter with the database unreachable and the cache failing
  on the second call.\<close>

definition example_tables :: tables where
  "example_tables =
     \<lparr>urls = [\<lparr>short_code = str ''abc123'', original_url = str ''https://example.com/a'',
               created_at = 1, click_count = 0, last_accessed = None\<rparr>],
      clicks = []\<rparr>"

definition example_world :: world where
  "example_world =
     \<lparr>db = example_tables, db_env = [], db_log = [],
      redis = \<lparr>entries = Map.empty, counters = Map.empty\<rparr>, redis_env = [],
      clock = 7, rnd = \<lparr>tape = (\<lambda>i. 0), pos = 0\<rparr>\<rparr>"

definition example_cached :: world where
  "example_cached =
     example_world\<lparr>redis := \<lparr>entries = [url_key (str ''abc123'') \<mapsto>
        \<lparr>originalUrl = str ''https://example.com/a'', shortCode = str ''abc123''\<rparr>],
        counters = Map.empty\<rparr>\<rparr>"

definition example_outage :: world where
  "example_outage =
     example_cached\<lparr>db_env := [Throw connection_failure, Throw connection_failure],
                    redis_env := [False, True]\<rparr>"

definition example_metadata :: metadata where
  "example_metadata =
     \<lparr>ipAddress = Some (str ''203.0.113.9''), userAgent = Some (str ''curl/8.0''),
      referrer = None\<rparr>"

definition referrer_only :: metadata where
  "referrer_only =
     \<lparr>ipAddress = None, userAgent = None, referrer = Some (str ''https://ref.example/'')\<rparr>"

text \<open>
  A store where the code \<open>000000\<close> is in use, with an entropy tape of zeros, so that
  every generated code is \<open>000000\<close>; the same with a tape whose third code is \<open>111111\<close>;
  and a world where the third call of \<open>db.query\<close> (the insert) is rejected with a unique
  violation, as it is when another request has inserted the same code after the lookup.
\<close>

definition example_crowded :: world where
  "example_crowded =
     example_world\<lparr>db := \<lparr>urls = [\<lparr>short_code = str ''000000'',
                                       original_url = str ''https://example.com/z'',
                                       created_at = 2, click_count = 0, last_accessed = None\<rparr>],
                            clicks = []\<rparr>\<rparr>"

definition example_third_try :: world where
  "example_third_try = example_crowded\<lparr>rnd := \<lparr>tape = (\<lambda>i. if i < 12 then 0 else 1), pos = 0\<rparr>\<rparr>"

definition example_race :: world where
  "example_race = example_world\<lparr>db_env := [Proceed, Proceed, Throw unique_violation]\<rparr>"

text \<open>The platform with \<open>SHORT_CODE_LENGTH=11\<close> in the environment.\<close>

definition example_long_codes :: platform where
  "example_long_codes = example_platform\<lparr>env_SHORT_CODE_LENGTH := Some 11\<rparr>"

section \<open>Properties of the utilities\<close>


lemma length_generateShortCode: "length (fst (generateShortCode len r)) = len"
  by (simp add: generateShortCode_def randomBytes_def)

lemma length_BASE62_CHARS: "length BASE62_CHARS = 62"
  by (simp add: BASE62_CHARS_def str_def)

lemma distinct_BASE62_CHARS: "distinct BASE62_CHARS"
  by (simp add: BASE62_CHARS_def str_def)

lemma set_generateShortCode: "set (fst (generateShortCode len r)) \<subseteq> set BASE62_CHARS"
proof -
  have "BASE62_CHARS ! (k mod 62) \<in> set BASE62_CHARS" for k :: nat
    by (rule nth_mem) (simp add: length_BASE62_CHARS)
  then show ?thesis
    by (auto simp: generateShortCode_def randomBytes_def)
qed

lemma word_in_range:
  fixes c :: "16 word"
  assumes "of_nat a \<le> c" "c \<le> of_nat b" "a < 65536" "b < 65536"
  shows "c \<in> of_nat ` set [a..<Suc b]"
proof -
  have "unat (of_nat a :: 16 word) = a" "unat (of_nat b :: 16 word) = b"
    using assms(3,4) by (simp_all add: unat_of_nat)
  then have "a \<le> unat c" "unat c \<le> b"
    using assms(1,2) by (simp_all add: word_le_nat_alt)
  then have "unat c \<in> set [a..<Suc b]" by auto
  then have "of_nat (unat c) \<in> (of_nat ` set [a..<Suc b] :: 16 word set)" by (rule imageI)
  then show ?thesis by simp
qed

lemma base62_symbol_in: "base62_symbol c \<Longrightarrow> c \<in> set BASE62_CHARS"
proof -
  assume "base62_symbol c"
  then consider "0x30 \<le> c \<and> c \<le> 0x39" | "0x61 \<le> c \<and> c \<le> 0x7A" | "0x41 \<le> c \<and> c \<le> 0x5A"
    unfolding base62_symbol_def by blast
  then show ?thesis
  proof cases
    case 1
    then have "c \<in> of_nat ` set [48..<Suc 57]" by (intro word_in_range) simp_all
    then show ?thesis by (auto simp: BASE62_CHARS_def str_def upt_rec)
  next
    case 2
    then have "c \<in> of_nat ` set [97..<Suc 122]" by (intro word_in_range) simp_all
    then show ?thesis by (auto simp: BASE62_CHARS_def str_def upt_rec)
  next
    case 3
    then have "c \<in> of_nat ` set [65..<Suc 90]" by (intro word_in_range) simp_all
    then show ?thesis by (auto simp: BASE62_CHARS_def str_def upt_rec)
  qed
qed

lemma in_base62_symbol: "c \<in> set BASE62_CHARS \<Longrightarrow> base62_symbol c"
proof -
  have "list_all base62_symbol BASE62_CHARS"
    by (simp add: BASE62_CHARS_def str_def base62_symbol_def)
  then show "c \<in> set BASE62_CHARS \<Longrightarrow> base62_symbol c"
    by (simp add: list_all_iff)
qed


text \<open>
  C8: \<open>generateShortCode(length)\<close> returns exactly \<open>length\<close> symbols, each of them one
  of the 62 symbols of \<open>BASE62_CHARS\<close>, which are the digits, the lowercase and the
  uppercase letters. This holds for every length and every content of the entropy tape.
\<close>

theorem generateShortCode_symbols:
  "length (fst (generateShortCode len r)) = len
   \<and> set (fst (generateShortCode len r)) \<subseteq> set BASE62_CHARS
   \<and> list_all base62_symbol (fst (generateShortCode len r))
   \<and> length BASE62_CHARS = 62 \<and> distinct BASE62_CHARS
   \<and> set BASE62_CHARS = {c. base62_symbol c}"
proof -
  have alphabet: "set BASE62_CHARS = {c. base62_symbol c}"
    using base62_symbol_in in_base62_symbol by blast
  have "list_all base62_symbol (fst (generateShortCode len r))"
    using set_generateShortCode [of len r] alphabet by (auto simp: list_all_iff)
  with alphabet show ?thesis
    using length_generateShortCode [of len r] set_generateShortCode [of len r]
      length_BASE62_CHARS distinct_BASE62_CHARS
    by blast
qed

theorem generateShortCode_symbols_witness:
  "fst (generateShortCode 6 \<lparr>tape = (\<lambda>i. 61 + 3 * of_nat i), pos = 0\<rparr>) = str ''Z258be''
   \<and> length (fst (generateShortCode 6 \<lparr>tape = (\<lambda>i. 61 + 3 * of_nat i), pos = 0\<rparr>)) = 6
   \<and> list_all base62_symbol (fst (generateShortCode 6 \<lparr>tape = (\<lambda>i. 61 + 3 * of_nat i), pos = 0\<rparr>))"
proof -
  have "fst (generateShortCode 6 \<lparr>tape = (\<lambda>i. 61 + 3 * of_nat i), pos = 0\<rparr>) = str ''Z258be''"
    by (simp add: generateShortCode_def randomBytes_def BASE62_CHARS_def str_def upt_rec)
  with generateShortCode_symbols [of 6 "\<lparr>tape = (\<lambda>i. 61 + 3 * of_nat i), pos = 0\<rparr>"]
  show ?thesis by simp
qed

subsection \<open>isValidUrl\<close>

text \<open>
  C10: \<open>isValidUrl\<close> returns a boolean for every string and every behaviour of the
  parser; where the parser throws, the statements inside \<open>try\<close> raise that error and the
  function returns \<open>false\<close>.
\<close>

theorem isValidUrl_total:
  "(\<exists>b. isValidUrl P url = Inr b)
   \<and> (\<forall>e. URL_new P url = Inl e \<longrightarrow>
          isValidUrl_try P url = Inl e \<and> isValidUrl P url = Inr False)"
  by (auto simp: isValidUrl_def isValidUrl_try_def split: sum.splits)

theorem isValidUrl_total_witness:
  "URL_new example_platform (str ''not a url'') = Inl TypeError
   \<and> isValidUrl_try example_platform (str ''not a url'') = Inl TypeError
   \<and> isValidUrl example_platform (str ''not a url'') = Inr False"
proof -
  have "URL_new example_platform (str ''not a url'') = Inl TypeError"
    by (simp add: example_platform_def example_URL_def str_def fold_case_def)
  with isValidUrl_total [of example_platform "str ''not a url''"] show ?thesis by simp
qed

subsection \<open>normalizeUrl\<close>


lemma fold_case_ws: "isWhiteSpace c \<Longrightarrow> fold_case c = c"
proof -
  have r: "\<not> c \<le> 0x5A" if "0x2000 \<le> c"
  proof
    assume "c \<le> 0x5A"
    with that have "(0x2000::16 word) \<le> 0x5A" by (rule order_trans)
    then show False by simp
  qed
  assume "isWhiteSpace c"
  then consider "c = 0x09" | "c = 0x0A" | "c = 0x0B" | "c = 0x0C" | "c = 0x0D" | "c = 0x20" | "c = 0xA0"
      | "c = 0x1680" | "(0x2000 \<le> c \<and> c \<le> 0x200A)" | "c = 0x2028" | "c = 0x2029"
      | "c = 0x202F" | "c = 0x205F" | "c = 0x3000" | "c = 0xFEFF"
    unfolding isWhiteSpace_def by blast
  then show "fold_case c = c"
    by cases (use r in \<open>simp_all add: fold_case_def\<close>)
qed

lemma scheme_unit_not_ws:
  assumes "fold_case c = 0x68 \<or> fold_case c = 0x74 \<or> fold_case c = 0x70 \<or> fold_case c = 0x73
     \<or> fold_case c = 0x3A \<or> fold_case c = 0x2F"
  shows "\<not> isWhiteSpace c"
proof
  assume ws: "isWhiteSpace c"
  then have "fold_case c = c" by (rule fold_case_ws)
  with assms have "c = 0x68 \<or> c = 0x74 \<or> c = 0x70 \<or> c = 0x73 \<or> c = 0x3A \<or> c = 0x2F" by simp
  then show False using ws by (elim disjE) (simp_all add: isWhiteSpace_def)
qed

lemma fold_case_slash: "fold_case c = 0x2F \<Longrightarrow> c = 0x2F"
  by (simp add: fold_case_def split: if_splits) 

lemma rev_dropWhile_rev_append:
  assumes "xs \<noteq> []" "\<not> P (last xs)"
  shows "rev (dropWhile P (rev (xs @ ys))) = xs @ rev (dropWhile P (rev ys))"
proof -
  from assms have "dropWhile P (rev xs) = rev xs"
    by (cases xs rule: rev_cases) simp_all
  then show ?thesis
    by (simp add: dropWhile_append dropWhile_eq_Nil_conv)
qed

lemma dropWhile_hd_id: "xs \<noteq> [] \<Longrightarrow> \<not> P (hd xs) \<Longrightarrow> dropWhile P xs = xs"
  by (cases xs) simp_all

lemma trim_id:
  assumes "s \<noteq> []" "\<not> isWhiteSpace (hd s)" "\<not> isWhiteSpace (last s)"
  shows "trim s = s"
proof -
  have "dropWhile isWhiteSpace s = s"
    using assms by (simp add: dropWhile_hd_id)
  moreover have "dropWhile isWhiteSpace (rev s) = rev s"
    using assms by (simp add: dropWhile_hd_id hd_rev)
  ultimately show ?thesis by (simp add: trim_def)
qed

lemma trim_keeps_prefix:
  assumes "xs \<noteq> []" "\<not> isWhiteSpace (hd xs)" "\<not> isWhiteSpace (last xs)"
  shows "\<exists>zs. trim (xs @ ys) = xs @ zs \<and> length zs \<le> length ys"
proof -
  from assms have "dropWhile isWhiteSpace (xs @ ys) = xs @ ys"
    by (cases xs) simp_all
  then have "trim (xs @ ys) = xs @ rev (dropWhile isWhiteSpace (rev ys))"
    using assms by (simp add: trim_def rev_dropWhile_rev_append del: rev_append)
  moreover have "length (rev (dropWhile isWhiteSpace (rev ys))) \<le> length ys"
    using length_dropWhile_le [of isWhiteSpace "rev ys"] by simp
  ultimately show ?thesis by blast
qed

lemma trim_shorter:
  assumes "s \<noteq> []" "isWhiteSpace (last s)"
  shows "length (trim s) < length s"
proof (cases "dropWhile isWhiteSpace s = []")
  case True
  have "trim s = []" unfolding trim_def True by simp
  with assms show ?thesis by simp
next
  case False
  obtain ys y where s: "s = ys @ [y]" using assms(1) by (cases s rule: rev_cases) auto
  define d where "d = dropWhile isWhiteSpace s"
  have "\<exists>zs. d = zs @ [y]"
  proof -
    have "d = dropWhile isWhiteSpace ys @ [y] \<or> d = dropWhile isWhiteSpace [y]"
      unfolding d_def s by (simp add: dropWhile_append)
    with False d_def show ?thesis by (auto split: if_splits)
  qed
  then obtain zs where d: "d = zs @ [y]" ..
  have wy: "isWhiteSpace y" using assms(2) s by simp
  have "length (dropWhile isWhiteSpace (rev d)) \<le> length zs"
    using wy length_dropWhile_le [of isWhiteSpace "rev zs"] by (simp add: d)
  then have "length (trim s) < length d"
    by (simp add: trim_def d_def [symmetric]) (simp add: d)
  also have "length d \<le> length s" unfolding d_def by (rule length_dropWhile_le)
  finally show ?thesis .
qed


lemma scheme_prefix_props:
  assumes "scheme_prefix pre"
  shows "pre \<noteq> []" "\<not> isWhiteSpace (hd pre)" "\<not> isWhiteSpace (last pre)" "last pre = 0x2F"
    "7 \<le> length pre" "last (butlast pre) = 0x2F" "match_scheme (pre @ t)"
proof -
  from assms consider (a) "map fold_case pre = str ''http://''"
    | (b) "map fold_case pre = str ''https://''"
    by (auto simp: scheme_prefix_def)
  then have "pre \<noteq> [] \<and> \<not> isWhiteSpace (hd pre) \<and> \<not> isWhiteSpace (last pre) \<and> last pre = 0x2F
    \<and> 7 \<le> length pre \<and> last (butlast pre) = 0x2F \<and> match_scheme (pre @ t)"
  proof cases
    case a
    then obtain c1 c2 c3 c4 c5 c6 c7 where pre: "pre = [c1, c2, c3, c4, c5, c6, c7]"
      and f: "fold_case c1 = 0x68" "fold_case c6 = 0x2F" "fold_case c7 = 0x2F"
      by (auto simp: str_def map_eq_Cons_conv)
    have "match_scheme (pre @ t)"
      using a by (simp add: match_scheme_def pre)
    then show ?thesis
      using f by (simp add: pre scheme_unit_not_ws fold_case_slash)
  next
    case b
    then obtain c1 c2 c3 c4 c5 c6 c7 c8 where pre: "pre = [c1, c2, c3, c4, c5, c6, c7, c8]"
      and f: "fold_case c1 = 0x68" "fold_case c7 = 0x2F" "fold_case c8 = 0x2F"
      by (auto simp: str_def map_eq_Cons_conv)
    have "match_scheme (pre @ t)"
      using b by (simp add: match_scheme_def pre)
    then show ?thesis
      using f by (simp add: pre scheme_unit_not_ws fold_case_slash)
  qed
  then show "pre \<noteq> []" "\<not> isWhiteSpace (hd pre)" "\<not> isWhiteSpace (last pre)" "last pre = 0x2F"
    "7 \<le> length pre" "last (butlast pre) = 0x2F" "match_scheme (pre @ t)"
    by blast+
qed

lemma match_scheme_split:
  assumes "match_scheme s"
  obtains pre rest where "s = pre @ rest" "scheme_prefix pre"
proof -
  from assms have "scheme_prefix (take 7 s) \<or> scheme_prefix (take 8 s)"
    unfolding match_scheme_def scheme_prefix_def by blast
  then show thesis
    using that append_take_drop_id by metis
qed


lemma match_scheme_https: "match_scheme (str ''https://'' @ t)"
  by (simp add: match_scheme_def str_def fold_case_def)

lemma normalizeUrl_shape:
  obtains p where "match_scheme p" "normalizeUrl u = remove_trailing_slash p"
  using that [of "trim u"] that [of "str ''https://'' @ trim u"]
  by (cases "match_scheme (trim u)") (simp_all add: normalizeUrl_def match_scheme_https)

lemma remove_trailing_slash_scheme:
  assumes "match_scheme p" and v: "v = remove_trailing_slash p"
  shows "v \<noteq> []" "\<not> isWhiteSpace (hd v)" "last v \<noteq> 0x2F \<Longrightarrow> match_scheme v"
proof -
  from assms(1) obtain pre rest where p: "p = pre @ rest" and pre: "scheme_prefix pre"
    by (rule match_scheme_split)
  note pp = scheme_prefix_props [OF pre]
  have "v \<noteq> [] \<and> \<not> isWhiteSpace (hd v) \<and> (last v \<noteq> 0x2F \<longrightarrow> match_scheme v)"
  proof (cases "rest = []")
    case True
    then have "v = butlast pre"
      using pp(1,4) by (simp add: v p remove_trailing_slash_def)
    moreover have "butlast pre \<noteq> []" "hd (butlast pre) = hd pre"
      using pp(5) by (cases pre; cases "tl pre"; simp)+
    ultimately show ?thesis using pp(2,6) by simp
  next
    case False
    then have "v = pre @ rest \<or> v = pre @ butlast rest"
      by (simp add: v p remove_trailing_slash_def butlast_append)
    then show ?thesis using pp(1,2,7) by auto
  qed
  then show "v \<noteq> []" "\<not> isWhiteSpace (hd v)" "last v \<noteq> 0x2F \<Longrightarrow> match_scheme v"
    by blast+
qed

lemma normalizeUrl_fixed:
  assumes "v \<noteq> []" "\<not> isWhiteSpace (hd v)" "\<not> isWhiteSpace (last v)" "last v \<noteq> 0x2F" "match_scheme v"
  shows "normalizeUrl v = v"
  using assms by (simp add: normalizeUrl_def trim_id remove_trailing_slash_def)

lemma normalizeUrl_slash_moves:
  assumes "v \<noteq> []" "\<not> isWhiteSpace (hd v)" "last v = 0x2F"
  shows "length (normalizeUrl v) \<noteq> length v"
proof -
  have "trim v = v" using assms by (simp add: trim_id isWhiteSpace_def)
  moreover have "length v - Suc 0 \<noteq> length v" using assms(1) by (cases v) simp_all
  ultimately show ?thesis
    using assms by (simp add: normalizeUrl_def remove_trailing_slash_def str_def Let_def)
qed

lemma normalizeUrl_space_moves:
  assumes "v \<noteq> []" "\<not> isWhiteSpace (hd v)" "isWhiteSpace (last v)" "match_scheme v"
  shows "length (normalizeUrl v) < length v"
proof -
  from assms(4) obtain pre rest where p: "v = pre @ rest" and pre: "scheme_prefix pre"
    by (rule match_scheme_split)
  note pp = scheme_prefix_props [OF pre]
  obtain zs where "trim v = pre @ zs"
    using trim_keeps_prefix [OF pp(1,2,3), of rest] p by blast
  then have "match_scheme (trim v)" using pp(7) by simp
  then have "normalizeUrl v = remove_trailing_slash (trim v)"
    by (simp add: normalizeUrl_def)
  then have "length (normalizeUrl v) \<le> length (trim v)"
    by (simp add: remove_trailing_slash_def)
  also have "\<dots> < length v" using assms by (simp add: trim_shorter)
  finally show ?thesis .
qed

text \<open>
  C2, as amended: \<open>normalizeUrl (normalizeUrl u) = normalizeUrl u\<close> holds exactly for
  the strings \<open>u\<close> whose normalized form ends neither in \<open>/\<close> nor in a whitespace
  character. Only one trailing slash is removed, and removing it can uncover another
  slash or a space, which the second call then removes.
\<close>

theorem normalizeUrl_idempotent_iff:
  "normalizeUrl (normalizeUrl u) = normalizeUrl u \<longleftrightarrow>
     last (normalizeUrl u) \<noteq> 0x2F \<and> \<not> isWhiteSpace (last (normalizeUrl u))"
proof -
  define v where "v = normalizeUrl u"
  obtain p where p: "match_scheme p" "v = remove_trailing_slash p"
    unfolding v_def by (rule normalizeUrl_shape)
  note vv = remove_trailing_slash_scheme [OF p]
  show ?thesis
    unfolding v_def [symmetric]
  proof
    assume fp: "normalizeUrl v = v"
    show "last v \<noteq> 0x2F \<and> \<not> isWhiteSpace (last v)"
    proof (rule ccontr)
      assume "\<not> (last v \<noteq> 0x2F \<and> \<not> isWhiteSpace (last v))"
      then consider "last v = 0x2F" | "last v \<noteq> 0x2F" "isWhiteSpace (last v)" by blast
      then show False
      proof cases
        case 1
        from normalizeUrl_slash_moves [OF vv(1,2) 1] fp show False by simp
      next
        case 2
        from normalizeUrl_space_moves [OF vv(1,2) 2(2) vv(3) [OF 2(1)]] fp show False by simp
      qed
    qed
  next
    assume "last v \<noteq> 0x2F \<and> \<not> isWhiteSpace (last v)"
    then show "normalizeUrl v = v"
      using vv by (simp add: normalizeUrl_fixed)
  qed
qed

text \<open>The claim as stated fails: \<open>a//\<close> becomes \<open>https://a/\<close>, and that becomes
  \<open>https://a\<close>.\<close>

theorem normalizeUrl_not_idempotent:
  "normalizeUrl (normalizeUrl (str ''a//'')) \<noteq> normalizeUrl (str ''a//'')"
  by (simp add: normalizeUrl_def trim_def str_def isWhiteSpace_def match_scheme_def
      fold_case_def remove_trailing_slash_def)

theorem normalizeUrl_idempotent_witness:
  "normalizeUrl (normalizeUrl (str '' Example.com/ '')) = normalizeUrl (str '' Example.com/ '')"
  using normalizeUrl_idempotent_iff [of "str '' Example.com/ ''"]
  by (simp add: normalizeUrl_def trim_def str_def isWhiteSpace_def match_scheme_def
      fold_case_def remove_trailing_slash_def)


subsection \<open>encodeBase62 and decodeBase62\<close>


lemma bit_length_0: "bit_length 0 = 0"
  by (subst bit_length.simps) simp

lemma bit_length_pos: "0 < n \<Longrightarrow> bit_length n = Suc (bit_length (n div 2))"
  by (subst bit_length.simps) simp

lemma bit_length_le: "n < 2 ^ m \<Longrightarrow> bit_length n \<le> m"
proof (induction m arbitrary: n)
  case 0
  then show ?case by (simp add: bit_length_0)
next
  case (Suc m)
  show ?case
  proof (cases "n = 0")
    case True
    then show ?thesis by (simp add: bit_length_0)
  next
    case False
    from Suc.prems have "n div 2 < 2 ^ m" by simp
    then have "bit_length (n div 2) \<le> m" by (rule Suc.IH)
    then show ?thesis using False by (simp add: bit_length_pos)
  qed
qed

lemma bit_length_eq: "2 ^ m \<le> n \<Longrightarrow> n < 2 ^ Suc m \<Longrightarrow> bit_length n = Suc m"
proof (induction m arbitrary: n)
  case 0
  then have "n = 1" by simp
  then show ?case by (simp add: bit_length_pos bit_length_0)
next
  case (Suc m)
  then have "2 ^ m \<le> n div 2" "n div 2 < 2 ^ Suc m" by simp_all
  then have "bit_length (n div 2) = Suc m" by (rule Suc.IH)
  moreover have "0 < n" using Suc.prems(1) by (cases n) simp_all
  ultimately show ?case by (simp add: bit_length_pos)
qed

lemma round_half_even_ge: "a div b \<le> round_half_even a b"
  by (simp add: round_half_even_def Let_def)

lemma round_half_even_below:
  assumes "0 < b" "2 * a < b * (2 * m + 1)"
  shows "round_half_even a b \<le> m"
proof -
  define q where "q = a div b"
  define r where "r = a mod b"
  have a: "a = b * q + r" by (simp add: q_def r_def)
  have rb: "r < b" using assms(1) by (simp add: r_def)
  consider "q < m" | "q = m" | "m < q" by linarith
  then show ?thesis
  proof cases
    case 1
    then show ?thesis using round_half_even_le [of a b] by (simp add: q_def)
  next
    case 2
    from assms(2) have "2 * (b * m) + 2 * r < 2 * (b * m) + b"
      by (simp add: a 2 algebra_simps)
    then have "2 * r < b" by simp
    then show ?thesis by (simp add: round_half_even_def Let_def r_def [symmetric] q_def [symmetric] 2)
  next
    case 3
    then have "m + 1 \<le> q" by simp
    then have "b * (m + 1) \<le> b * q" by (rule mult_le_mono2)
    then have "b * (2 * m + 2) \<le> 2 * a" by (simp add: a algebra_simps)
    moreover have "b * (2 * m + 1) < b * (2 * m + 2)" using assms(1) by simp
    ultimately show ?thesis using assms(2) by simp
  qed
qed

lemma floor_div_62_exact:
  assumes "n < 2 ^ 53"
  shows "floor_div_62 n = n div 62"
proof (cases "n div 62 = 0")
  case True
  then show ?thesis by (simp add: floor_div_62_def)
next
  case False
  define q where "q = n div 62"
  define s where "s = 53 - bit_length q"
  define p :: nat where "p = 2 ^ s"
  have "q \<le> n div 32" unfolding q_def by (rule div_le_mono2) simp_all
  also have "\<dots> < 2 ^ 48" using assms by simp
  finally have "bit_length q \<le> 48" by (rule bit_length_le)
  then have s5: "5 \<le> s" and nb: "\<not> 53 \<le> bit_length q" by (simp_all add: s_def)
  have "(2::nat) ^ 5 \<le> 2 ^ s" using s5 by (rule power_increasing) simp
  then have p32: "32 \<le> p" by (simp add: p_def)
  have n: "n = 62 * q + n mod 62" by (simp add: q_def)
  have r: "n mod 62 \<le> 61" by simp
  have lower: "q * p \<le> round_half_even (n * p) 62"
  proof -
    have "62 * q \<le> n" by (simp add: q_def)
    then have "62 * (q * p) \<le> n * p" by (metis mult.assoc mult_le_mono1)
    then have "62 * (q * p) div 62 \<le> n * p div 62" by (rule div_le_mono)
    then have "q * p \<le> n * p div 62" by simp
    also have "\<dots> \<le> round_half_even (n * p) 62" by (rule round_half_even_ge)
    finally show ?thesis .
  qed
  have upper: "round_half_even (n * p) 62 \<le> q * p + (p - 1)"
  proof (rule round_half_even_below)
    show "(0::nat) < 62" by simp
    have "n \<le> 62 * q + 61" using n r by linarith
    then have "n * p \<le> (62 * q + 61) * p" by (rule mult_le_mono1)
    then have "2 * (n * p) \<le> 124 * (q * p) + 122 * p" by (simp add: algebra_simps)
    also have "\<dots> < 124 * (q * p) + (124 * p - 62)" using p32 by simp
    also have "\<dots> = 62 * (2 * (q * p + (p - 1)) + 1)" using p32 by (simp add: algebra_simps)
    finally show "2 * (n * p) < 62 * (2 * (q * p + (p - 1)) + 1)" .
  qed
  have "round_half_even (n * p) 62 div p = q"
  proof (rule div_nat_eqI)
    show "p * q \<le> round_half_even (n * p) 62" using lower by (simp add: mult.commute)
    have "q * p + (p - 1) < q * p + p" using p32 by linarith
    also have "\<dots> = p * Suc q" by (simp add: mult.commute)
    finally have "q * p + (p - 1) < p * Suc q" .
    with upper show "round_half_even (n * p) 62 < p * Suc q" by (rule le_less_trans)
  qed
  then show ?thesis
    using False nb by (simp add: floor_div_62_def q_def [symmetric] s_def [symmetric] p_def Let_def)
qed


lemma encodeBase62_loop_0: "encodeBase62_loop 0 encoded = encoded"
  by (subst encodeBase62_loop.simps) simp

lemma encodeBase62_loop_pos:
  "0 < num \<Longrightarrow> encodeBase62_loop num encoded =
     encodeBase62_loop (floor_div_62 num) (BASE62_CHARS ! (num mod 62) # encoded)"
  by (subst encodeBase62_loop.simps) simp

lemma encodeBase62_loop_safe:
  "0 < num \<Longrightarrow> num < 2 ^ 53 \<Longrightarrow> encodeBase62_loop num encoded =
     encodeBase62_loop (num div 62) (BASE62_CHARS ! (num mod 62) # encoded)"
  by (simp add: encodeBase62_loop_pos floor_div_62_exact)

lemma encodeBase62_loop_append:
  "encodeBase62_loop num encoded = encodeBase62_loop num [] @ encoded"
proof (induction num arbitrary: encoded rule: less_induct)
  case (less num)
  show ?case
  proof (cases "0 < num")
    case False
    then show ?thesis by (simp add: encodeBase62_loop_0)
  next
    case True
    then have smaller: "floor_div_62 num < num" by (rule floor_div_62_less)
    have "encodeBase62_loop num encoded =
        encodeBase62_loop (floor_div_62 num) [] @ (BASE62_CHARS ! (num mod 62) # encoded)"
      using True less.IH [OF smaller, of "BASE62_CHARS ! (num mod 62) # encoded"]
      by (simp add: encodeBase62_loop_pos)
    moreover have "encodeBase62_loop num [] =
        encodeBase62_loop (floor_div_62 num) [] @ [BASE62_CHARS ! (num mod 62)]"
      using True less.IH [OF smaller, of "[BASE62_CHARS ! (num mod 62)]"]
      by (simp add: encodeBase62_loop_pos)
    ultimately show ?thesis by simp
  qed
qed

lemma indexOf_nth:
  "distinct xs \<Longrightarrow> i < length xs \<Longrightarrow> indexOf xs (xs ! i) = int i"
proof (induction xs arbitrary: i)
  case Nil
  then show ?case by simp
next
  case (Cons x xs)
  show ?case
  proof (cases i)
    case 0
    then show ?thesis by simp
  next
    case (Suc j)
    with Cons.prems have j: "j < length xs" "distinct xs" "xs ! j \<noteq> x"
      by (auto simp: in_set_conv_nth)
    then have "indexOf xs (xs ! j) = int j" using Cons.IH by simp
    with j Suc show ?thesis by (auto simp: Let_def)
  qed
qed

lemma nearest_double_exact: "0 \<le> i \<Longrightarrow> i < 2 ^ 53 \<Longrightarrow> nearest_double i = Finite i"
proof -
  assume a: "0 \<le> i" "i < 2 ^ 53"
  then have "nat i < 2 ^ 53" by (simp add: nat_less_iff)
  then show ?thesis using a by (simp add: nearest_double_def nearest_double_nat_def)
qed

lemma decodeBase62_foldl: "decodeBase62 s = foldl decode_step (Finite 0) s"
proof -
  have "decode_step = (\<lambda>decoded c. plus_index (times_62 decoded) (indexOf BASE62_CHARS c))"
    by (intro ext) (simp add: decode_step_def)
  then show ?thesis by (simp add: decodeBase62_def)
qed

lemma decode_step_digit:
  assumes "n < 2 ^ 53"
  shows "decode_step (Finite (int (n div 62))) (BASE62_CHARS ! (n mod 62)) = Finite (int n)"
proof -
  have ix: "indexOf BASE62_CHARS (BASE62_CHARS ! (n mod 62)) = int (n mod 62)"
    by (rule indexOf_nth) (simp_all add: distinct_BASE62_CHARS length_BASE62_CHARS)
  have "n div 62 * 62 \<le> n" by simp
  then have "int (n div 62) * 62 < 2 ^ 53"
    using assms by (metis (mono_tags) le_less_trans of_nat_less_iff of_nat_mult of_nat_numeral of_nat_power)
  then have t: "times_62 (Finite (int (n div 62))) = Finite (int (n div 62) * 62)"
    by (simp add: times_62_def nearest_double_exact)
  have "int (n div 62) * 62 + int (n mod 62) = int n"
    by (metis div_mult_mod_eq of_nat_add of_nat_mult of_nat_numeral)
  moreover have "int n < 2 ^ 53" using assms by (metis of_nat_less_iff of_nat_numeral of_nat_power)
  ultimately show ?thesis
    by (simp add: decode_step_def t ix plus_index_def nearest_double_exact)
qed

lemma decode_encode_loop:
  "n < 2 ^ 53 \<Longrightarrow> foldl decode_step (Finite 0) (encodeBase62_loop n []) = Finite (int n)"
proof (induction n rule: less_induct)
  case (less n)
  show ?case
  proof (cases "0 < n")
    case False
    then show ?thesis by (simp add: encodeBase62_loop_0)
  next
    case True
    have q: "n div 62 < n" "n div 62 < 2 ^ 53" using True less.prems by simp_all
    have "encodeBase62_loop n [] = encodeBase62_loop (n div 62) [] @ [BASE62_CHARS ! (n mod 62)]"
      using True less.prems encodeBase62_loop_append [of "n div 62" "[BASE62_CHARS ! (n mod 62)]"]
      by (simp add: encodeBase62_loop_safe)
    then show ?thesis
      using less.IH [OF q] less.prems by (simp add: decode_step_digit)
  qed
qed

text \<open>
  C3, as amended: for every natural number \<open>n\<close> below \<open>2^53\<close>, the range in which
  JavaScript numbers hold every integer exactly, \<open>decodeBase62 (encodeBase62 n)\<close> is \<open>n\<close>;
  \<open>encodeBase62 0\<close> is \<open>"0"\<close>; and the encoding is base 62 with the most significant
  symbol first: a number below 62 is its one symbol, a larger one is the encoding of
  \<open>n div 62\<close> followed by the symbol of \<open>n mod 62\<close>.
\<close>

theorem base62_round_trip:
  "(n < 2 ^ 53 \<longrightarrow> decodeBase62 (encodeBase62 n) = Finite (int n))
   \<and> encodeBase62 0 = str ''0''
   \<and> (n < 62 \<longrightarrow> encodeBase62 n = [BASE62_CHARS ! n])
   \<and> (62 \<le> n \<and> n < 2 ^ 53 \<longrightarrow>
        encodeBase62 n = encodeBase62 (n div 62) @ [BASE62_CHARS ! (n mod 62)])"
proof (intro conjI impI)
  show "encodeBase62 0 = str ''0''"
    by (simp add: encodeBase62_def BASE62_CHARS_def str_def)
  show "decodeBase62 (encodeBase62 n) = Finite (int n)" if "n < 2 ^ 53"
  proof (cases "n = 0")
    case True
    have "indexOf BASE62_CHARS (BASE62_CHARS ! 0) = int 0"
      by (rule indexOf_nth) (simp_all add: distinct_BASE62_CHARS length_BASE62_CHARS)
    then show ?thesis
      using True
      by (simp add: encodeBase62_def decodeBase62_foldl decode_step_def times_62_def
          plus_index_def nearest_double_exact)
  next
    case False
    then show ?thesis
      using that by (simp add: encodeBase62_def decodeBase62_foldl decode_encode_loop)
  qed
  show "encodeBase62 n = [BASE62_CHARS ! n]" if "n < 62"
  proof (cases "n = 0")
    case True
    then show ?thesis by (simp add: encodeBase62_def)
  next
    case False
    then show ?thesis
      using that by (simp add: encodeBase62_def encodeBase62_loop_safe encodeBase62_loop_0)
  qed
  show "encodeBase62 n = encodeBase62 (n div 62) @ [BASE62_CHARS ! (n mod 62)]"
    if "62 \<le> n \<and> n < 2 ^ 53"
  proof -
    from that have "0 < n" "n div 62 \<noteq> 0" by (simp_all add: div_greater_zero_iff)
    then show ?thesis
      using that encodeBase62_loop_append [of "n div 62" "[BASE62_CHARS ! (n mod 62)]"]
      by (simp add: encodeBase62_def encodeBase62_loop_safe)
  qed
qed


lemma floor_div_62_rounds_up: "floor_div_62 34902897112121528 = 562949953421315"
proof -
  have "bit_length 562949953421314 = Suc 49"
    by (rule bit_length_eq) simp_all
  then show ?thesis
    by (simp add: floor_div_62_def round_half_even_def Let_def)
qed

lemma nearest_double_55_bits:
  "nearest_double 34902897112121530 = Finite 34902897112121528"
  "nearest_double 34902897112121588 = Finite 34902897112121588"
proof -
  have "bit_length 34902897112121530 = Suc 54" "bit_length 34902897112121588 = Suc 54"
    by (rule bit_length_eq; simp)+
  then show "nearest_double 34902897112121530 = Finite 34902897112121528"
    "nearest_double 34902897112121588 = Finite 34902897112121588"
    by (simp_all add: nearest_double_def nearest_double_nat_def round_half_even_def Let_def)
qed

text \<open>
  The claim as stated fails: the conversion is not of arbitrary precision. The double
  \<open>34902897112121528\<close> (which is \<open>31 * 2^50 + 184\<close>) divided by 62 is rounded up to the
  next integer, so the encoding is that of a number 62 larger, with the last symbol of
  the original, and decoding it gives another number.
\<close>

theorem base62_round_trip_fails:
  "encodeBase62 34902897112121528 = str ''2zR34KlajY''
   \<and> decodeBase62 (encodeBase62 34902897112121528) = Finite 34902897112121588
   \<and> decodeBase62 (encodeBase62 34902897112121528) \<noteq> Finite 34902897112121528"
proof -
  have split: "encodeBase62 34902897112121528 =
      encodeBase62_loop 562949953421315 [] @ [BASE62_CHARS ! 60]"
    using encodeBase62_loop_append [of 562949953421315 "[BASE62_CHARS ! 60]"]
    by (simp add: encodeBase62_def encodeBase62_loop_pos floor_div_62_rounds_up)
  have "encodeBase62_loop 562949953421315 [] = str ''2zR34Klaj''"
    by (simp add: encodeBase62_loop_safe encodeBase62_loop_0 BASE62_CHARS_def str_def)
  with split have 1: "encodeBase62 34902897112121528 = str ''2zR34KlajY''"
    by (simp add: BASE62_CHARS_def str_def)
  have "foldl decode_step (Finite 0) (encodeBase62_loop 562949953421315 []) =
      Finite (int 562949953421315)"
    by (rule decode_encode_loop) simp
  moreover have "indexOf BASE62_CHARS (BASE62_CHARS ! 60) = int 60"
    by (rule indexOf_nth) (simp_all add: distinct_BASE62_CHARS length_BASE62_CHARS)
  ultimately have 2: "decodeBase62 (encodeBase62 34902897112121528) = Finite 34902897112121588"
    by (simp add: split decodeBase62_foldl decode_step_def times_62_def plus_index_def
        nearest_double_55_bits)
  from 1 2 show ?thesis by simp
qed

theorem base62_round_trip_witness:
  "decodeBase62 (encodeBase62 12345) = Finite 12345
   \<and> encodeBase62 12345 = str ''3d7''
   \<and> decodeBase62 (encodeBase62 9007199254740991) = Finite 9007199254740991"
proof -
  note msb = base62_round_trip [THEN conjunct2, THEN conjunct2, THEN conjunct2]
  note small = base62_round_trip [THEN conjunct2, THEN conjunct2, THEN conjunct1]
  have "encodeBase62 12345 = encodeBase62 199 @ [BASE62_CHARS ! 7]"
    using msb [of 12345] by simp
  moreover have "encodeBase62 199 = encodeBase62 3 @ [BASE62_CHARS ! 13]"
    using msb [of 199] by simp
  moreover have "encodeBase62 3 = [BASE62_CHARS ! 3]"
    using small [of 3] by simp
  ultimately have 1: "encodeBase62 12345 = str ''3d7''"
    by (simp add: BASE62_CHARS_def str_def)
  have 2: "decodeBase62 (encodeBase62 12345) = Finite 12345"
    using base62_round_trip [of 12345, THEN conjunct1] by simp
  have 3: "decodeBase62 (encodeBase62 9007199254740991) = Finite 9007199254740991"
    using base62_round_trip [of 9007199254740991, THEN conjunct1] by simp
  from 1 2 3 show ?thesis by blast
qed


section \<open>Properties of the service\<close>

subsection \<open>Strings that the stores receive\<close>

lemma utf8_Cons_plain: "plain c \<Longrightarrow> utf8 (c # s) = c # utf8 s"
  by (cases s) (simp_all add: plain_def)

lemma utf8_plain_append: "list_all plain pre \<Longrightarrow> utf8 (pre @ s) = pre @ utf8 s"
  by (induction pre) (simp_all add: utf8_Cons_plain)

lemma utf8_plain: "list_all plain s \<Longrightarrow> utf8 s = s"
  using utf8_plain_append [of s "[]"] by simp

lemma zero_in_utf8: "0 \<in> set (utf8 s) \<longleftrightarrow> 0 \<in> set s"
  by (induction s rule: utf8.induct) (auto simp: is_high_surrogate_def is_low_surrogate_def)

lemma characters_le: "characters s \<le> length s"
  by (simp add: characters_def)

lemma characters_plain: "list_all plain s \<Longrightarrow> characters s = length s"
  by (induction s) (simp_all add: characters_def plain_def)

lemma base62_plain: "base62_symbol c \<Longrightarrow> plain c \<and> c \<noteq> 0"
  by (auto simp: base62_symbol_def plain_def is_high_surrogate_def is_low_surrogate_def
      word_le_nat_alt)

lemma base62_code:
  assumes "set c \<subseteq> set BASE62_CHARS"
  shows "list_all plain c" "0 \<notin> set c"
  using assms in_base62_symbol base62_plain by (auto simp: list_all_iff)

lemma text_param_code: "set c \<subseteq> set BASE62_CHARS \<Longrightarrow> text_param c = Inr c"
  by (simp add: text_param_def base62_code utf8_plain)

lemma text_param_storable: "storable_text s \<Longrightarrow> text_param s = Inr s"
  by (simp add: text_param_def storable_text_def)

lemma text_param_null_storable:
  "\<forall>s. x = Some s \<longrightarrow> storable_text s \<Longrightarrow> text_param_null x = Inr x"
  by (cases x) (simp_all add: text_param_null_def text_param_storable)

lemma varchar_short: "length s \<le> n \<Longrightarrow> varchar n s = Inr s"
  using characters_le [of s] by (simp add: varchar_def)

lemma prefix_plain: "list_all plain (str ''url:'')" "list_all plain (str ''clicks:'')"
  by (simp_all add: str_def plain_def is_high_surrogate_def is_low_surrogate_def)

lemma utf8_key:
  "utf8 (url_key code) = url_key (utf8 code)" "utf8 (clicks_key code) = clicks_key (utf8 code)"
  by (simp_all add: url_key_def clicks_key_def utf8_plain_append prefix_plain)

subsection \<open>getOriginalUrl and incrementClickCount\<close>

lemma query_frame:
  assumes "query st w = (r, w')"
  shows "redis w' = redis w" "redis_env w' = redis_env w" "clock w' = clock w" "rnd w' = rnd w"
    "db_env w' = tl (db_env w)" "db_log w' = db_log w @ [st]"
  using assms
  by (auto simp: query_def Let_def split: db_event.splits sum.splits prod.splits)

lemma query_select_by_code:
  "query (SELECT_urls_WHERE_short_code code) w = (r, w') \<Longrightarrow> db w' = db w"
  by (auto simp: query_def Let_def split: db_event.splits sum.splits)

lemma cache_get_frame:
  assumes "cache_get key w = (r, w')"
  shows "db w' = db w" "db_env w' = db_env w" "db_log w' = db_log w" "clock w' = clock w"
    "rnd w' = rnd w" "redis w' = redis w" "redis_env w' = tl (redis_env w)"
  using assms by (auto simp: cache_get_def Let_def split: if_splits)

lemma cache_set_frame:
  assumes "cache_set key v w = (r, w')"
  shows "db w' = db w" "db_env w' = db_env w" "db_log w' = db_log w" "clock w' = clock w"
    "rnd w' = rnd w" "redis_env w' = tl (redis_env w)"
  using assms by (auto simp: cache_set_def Let_def split: if_splits)

text \<open>
  C9: \<open>getOriginalUrl\<close> leaves the tables as they were, for every short code and every
  world, whatever the cache and the database answer; it issues no statement or the one
  \<open>SELECT\<close> by short code. (The cache may change, see C5.)
\<close>

theorem getOriginalUrl_store_unchanged:
  "db (snd (getOriginalUrl code w)) = db w
   \<and> clock (snd (getOriginalUrl code w)) = clock w
   \<and> rnd (snd (getOriginalUrl code w)) = rnd w
   \<and> (db_log (snd (getOriginalUrl code w)) = db_log w
      \<or> db_log (snd (getOriginalUrl code w)) = db_log w @ [SELECT_urls_WHERE_short_code code])"
proof -
  obtain c w1 where g: "cache_get (url_key code) w = (c, w1)" by (cases "cache_get (url_key code) w")
  note f1 = cache_get_frame [OF g]
  show ?thesis
  proof (cases c)
    case (Some cached)
    then show ?thesis using g f1 by (simp add: getOriginalUrl_def)
  next
    case None
    obtain r w2 where q: "query (SELECT_urls_WHERE_short_code code) w1 = (r, w2)"
      by (cases "query (SELECT_urls_WHERE_short_code code) w1")
    note f2 = query_frame [OF q] query_select_by_code [OF q]
    show ?thesis
    proof (cases r)
      case (Inl e)
      then show ?thesis using None g q f1 f2 by (simp add: getOriginalUrl_def)
    next
      case (Inr rows)
      show ?thesis
      proof (cases rows)
        case Nil
        then show ?thesis using Inr None g q f1 f2 by (simp add: getOriginalUrl_def)
      next
        case (Cons urlData rest)
        obtain b w3 where s: "cache_set (url_key code)
            \<lparr>originalUrl = original_url urlData, shortCode = short_code urlData\<rparr> w2 = (b, w3)"
          by (cases "cache_set (url_key code)
            \<lparr>originalUrl = original_url urlData, shortCode = short_code urlData\<rparr> w2")
        note f3 = cache_set_frame [OF s]
        show ?thesis using Cons Inr None g q s f1 f2 f3 by (simp add: getOriginalUrl_def)
      qed
    qed
  qed
qed



theorem getOriginalUrl_store_unchanged_witness:
  "db (snd (getOriginalUrl (str ''abc123'') example_world)) = example_tables
   \<and> db_log (snd (getOriginalUrl (str ''abc123'') example_world)) =
       [SELECT_urls_WHERE_short_code (str ''abc123'')]"
proof -
  have "db_log (snd (getOriginalUrl (str ''abc123'') example_world)) \<noteq> db_log example_world"
    by (simp add: getOriginalUrl_def cache_get_def cache_set_def query_def Let_def
        example_world_def example_tables_def next_redis_fails_def next_db_event_def
        text_param_def str_def)
  with getOriginalUrl_store_unchanged [of "str ''abc123''" example_world]
  show ?thesis by (simp add: example_world_def)
qed

text \<open>
  C5, as amended: the cache-aside read. On a hit the entry is returned with source
  \<open>cache\<close> and the world is the same but for the consumed cache call: no statement
  reaches the store. On a miss (no entry, or the cache failing) with the store answering,
  the one statement is the \<open>SELECT\<close> by short code. The store refuses a code that
  contains the character U+0000, and the result is that error. For any other code the
  store compares the code as it receives it: without a row the result is \<open>null\<close>, a
  value and not an error; with a row the result has source \<open>database\<close>, and the entry
  is in the cache afterwards unless the cache fails on the \<open>set\<close>.
\<close>

theorem getOriginalUrl_cache_aside:
  "(\<not> next_redis_fails w \<and> entries (redis w) (utf8 (url_key code)) = Some cached \<longrightarrow>
      getOriginalUrl code w =
        (Inr (Some \<lparr>originalUrl = originalUrl cached, shortCode = shortCode cached,
                    source = str ''cache''\<rparr>),
         w\<lparr>redis_env := tl (redis_env w)\<rparr>))
   \<and> ((next_redis_fails w \<or> entries (redis w) (utf8 (url_key code)) = None)
        \<and> next_db_event w = Proceed \<longrightarrow>
      db_log (snd (getOriginalUrl code w)) = db_log w @ [SELECT_urls_WHERE_short_code code]
      \<and> (0 \<in> set code \<longrightarrow>
           fst (getOriginalUrl code w) = Inl (Database character_not_in_repertoire))
      \<and> (0 \<notin> set code \<longrightarrow>
           (filter (\<lambda>r. short_code r = utf8 code) (urls (db w)) = [] \<longrightarrow>
              fst (getOriginalUrl code w) = Inr None)
           \<and> (\<forall>urlData rest.
                filter (\<lambda>r. short_code r = utf8 code) (urls (db w)) = urlData # rest \<longrightarrow>
                fst (getOriginalUrl code w) =
                  Inr (Some \<lparr>originalUrl = original_url urlData, shortCode = utf8 code,
                              source = str ''database''\<rparr>)
                \<and> (\<not> next_redis_fails (w\<lparr>redis_env := tl (redis_env w)\<rparr>) \<longrightarrow>
                     entries (redis (snd (getOriginalUrl code w))) (utf8 (url_key code)) =
                       Some \<lparr>originalUrl = original_url urlData, shortCode = utf8 code\<rparr>))))"
proof (intro conjI impI allI)
  assume "\<not> next_redis_fails w \<and> entries (redis w) (utf8 (url_key code)) = Some cached"
  then show "getOriginalUrl code w =
        (Inr (Some \<lparr>originalUrl = originalUrl cached, shortCode = shortCode cached,
                    source = str ''cache''\<rparr>),
         w\<lparr>redis_env := tl (redis_env w)\<rparr>)"
    by (simp add: getOriginalUrl_def cache_get_def Let_def)
next
  assume a: "(next_redis_fails w \<or> entries (redis w) (utf8 (url_key code)) = None)
        \<and> next_db_event w = Proceed"
  then have miss: "cache_get (url_key code) w = (None, w\<lparr>redis_env := tl (redis_env w)\<rparr>)"
    by (auto simp: cache_get_def Let_def)
  from a have pr: "next_db_event (w\<lparr>redis_env := tl (redis_env w)\<rparr>) = Proceed"
    by (simp add: next_db_event_def)
  show "db_log (snd (getOriginalUrl code w)) = db_log w @ [SELECT_urls_WHERE_short_code code]"
    using miss pr
    by (simp add: getOriginalUrl_def query_def cache_set_def Let_def
        split: list.splits sum.splits)
  show "fst (getOriginalUrl code w) = Inl (Database character_not_in_repertoire)"
    if "0 \<in> set code"
    using miss pr that by (simp add: getOriginalUrl_def query_def text_param_def)
  assume ok: "0 \<notin> set code"
  show "fst (getOriginalUrl code w) = Inr None"
    if "filter (\<lambda>r. short_code r = utf8 code) (urls (db w)) = []"
    using miss pr ok that by (simp add: getOriginalUrl_def query_def text_param_def)
  fix urlData rest
  assume f: "filter (\<lambda>r. short_code r = utf8 code) (urls (db w)) = urlData # rest"
  then have "urlData \<in> set (filter (\<lambda>r. short_code r = utf8 code) (urls (db w)))" by simp
  then have sc: "short_code urlData = utf8 code" by simp
  show "fst (getOriginalUrl code w) =
             Inr (Some \<lparr>originalUrl = original_url urlData, shortCode = utf8 code,
                         source = str ''database''\<rparr>)"
    using miss pr ok f sc
    by (simp add: getOriginalUrl_def query_def cache_set_def text_param_def Let_def)
  show "entries (redis (snd (getOriginalUrl code w))) (utf8 (url_key code)) =
                  Some \<lparr>originalUrl = original_url urlData, shortCode = utf8 code\<rparr>"
    if "\<not> next_redis_fails (w\<lparr>redis_env := tl (redis_env w)\<rparr>)"
    using miss pr ok f sc that
    by (simp add: getOriginalUrl_def query_def cache_set_def text_param_def Let_def
        next_redis_fails_def)
qed

text \<open>
  The claim as stated fails: no mapping has the code \<open>ab\<close> followed by U+0000, and
  resolving it is an error of the store, not the value \<open>null\<close>; the redirect route
  answers 500, not 404.
\<close>

theorem getOriginalUrl_refused_code:
  "[0x61, 0x62, 0x00] \<notin> short_code ` set (urls (db example_world))
   \<and> fst (getOriginalUrl [0x61, 0x62, 0x00] example_world) =
       Inl (Database character_not_in_repertoire)
   \<and> fst (redirect_route [0x61, 0x62, 0x00] example_metadata example_world) =
       Send 500 (str ''Internal server error'')"
  by (simp add: redirect_route_def getOriginalUrl_def cache_get_def query_def text_param_def
      Let_def example_world_def example_tables_def next_redis_fails_def next_db_event_def
      str_def)

lemmas example_simps = example_world_def example_cached_def example_tables_def
  next_redis_fails_def next_db_event_def url_key_def clicks_key_def str_def
  text_param_def text_param_null_def is_high_surrogate_def is_low_surrogate_def

theorem getOriginalUrl_cache_aside_witness:
  "getOriginalUrl (str ''abc123'') example_cached =
     (Inr (Some \<lparr>originalUrl = str ''https://example.com/a'', shortCode = str ''abc123'',
                 source = str ''cache''\<rparr>), example_cached)
   \<and> fst (getOriginalUrl (str ''zzzzzz'') example_world) = Inr None
   \<and> fst (getOriginalUrl (str ''abc123'') example_world) =
       Inr (Some \<lparr>originalUrl = str ''https://example.com/a'', shortCode = str ''abc123'',
                   source = str ''database''\<rparr>)
   \<and> entries (redis (snd (getOriginalUrl (str ''abc123'') example_world)))
         (url_key (str ''abc123'')) =
       Some \<lparr>originalUrl = str ''https://example.com/a'', shortCode = str ''abc123''\<rparr>
   \<and> db_log (snd (getOriginalUrl [0x61, 0x62, 0x00] example_world)) =
       [SELECT_urls_WHERE_short_code [0x61, 0x62, 0x00]]
   \<and> fst (getOriginalUrl [0x61, 0x62, 0x00] example_world) =
       Inl (Database character_not_in_repertoire)"
  using getOriginalUrl_cache_aside [of example_cached "str ''abc123''"
      "\<lparr>originalUrl = str ''https://example.com/a'', shortCode = str ''abc123''\<rparr>"]
    getOriginalUrl_cache_aside [of example_world "str ''zzzzzz''"]
    getOriginalUrl_cache_aside [of example_world "str ''abc123''"]
    getOriginalUrl_cache_aside [of example_world "[0x61, 0x62, 0x00]"]
  by (simp add: example_simps)


text \<open>
  C7: \<open>incrementClickCount\<close> returns normally for every short code, metadata and world,
  so also when the store or the cache fail; and the redirect route answers with the
  redirect to the resolved URL whatever the accounting did.
\<close>

theorem incrementClickCount_never_raises:
  "fst (incrementClickCount code md w) = Inr ()
   \<and> (0x2E \<notin> set code \<longrightarrow>
        (\<forall>urlData. fst (getOriginalUrl code w) = Inr (Some urlData) \<longrightarrow>
           fst (redirect_route code md w) = Redirect 301 (originalUrl urlData)))"
proof (intro conjI impI allI)
  show "fst (incrementClickCount code md w) = Inr ()"
    by (simp add: incrementClickCount_def split: prod.splits sum.splits)
next
  fix urlData
  assume "0x2E \<notin> set code" "fst (getOriginalUrl code w) = Inr (Some urlData)"
  then show "fst (redirect_route code md w) = Redirect 301 (originalUrl urlData)"
    by (cases "getOriginalUrl code w") (auto simp: redirect_route_def split: prod.splits)
qed

theorem incrementClickCount_never_raises_witness:
  "fst (incrementClickCount_try (str ''abc123'') example_metadata
          (snd (getOriginalUrl (str ''abc123'') example_outage))) =
     Inl (Database connection_failure)
   \<and> fst (incrementClickCount (str ''abc123'') example_metadata
          (snd (getOriginalUrl (str ''abc123'') example_outage))) = Inr ()
   \<and> fst (redirect_route (str ''abc123'') example_metadata example_outage) =
       Redirect 301 (str ''https://example.com/a'')"
proof -
  have g: "getOriginalUrl (str ''abc123'') example_outage =
      (Inr (Some \<lparr>originalUrl = str ''https://example.com/a'', shortCode = str ''abc123'',
                 source = str ''cache''\<rparr>), example_outage\<lparr>redis_env := [True]\<rparr>)"
    by (simp add: getOriginalUrl_def cache_get_def Let_def example_outage_def example_simps)
  have t: "fst (incrementClickCount_try (str ''abc123'') example_metadata
          (example_outage\<lparr>redis_env := [True]\<rparr>)) = Inl (Database connection_failure)"
    by (simp add: incrementClickCount_try_def query_def Let_def example_outage_def example_simps)
  have dot: "0x2E \<notin> set (str ''abc123'')" by (simp add: str_def)
  from incrementClickCount_never_raises [of "str ''abc123''" example_metadata
      "example_outage\<lparr>redis_env := [True]\<rparr>"]
    incrementClickCount_never_raises [of "str ''abc123''" example_metadata example_outage]
    g t dot
  show ?thesis by simp
qed

lemma image_set_map_preserved: "(\<And>x. f (g x) = f x) \<Longrightarrow> f ` set (map g xs) = f ` set xs"
  by (simp add: image_image)

text \<open>
  C4, as amended: when the store and the cache answer, the short code names a mapping,
  the strings are text that the stores keep as it is, the values fit their columns and no
  counter is at its largest value, \<open>incrementClickCount\<close> adds one to
  \<open>click_count\<close> and sets \<open>last_accessed\<close> on that mapping, inserts a row into
  \<open>clicks\<close> exactly when \<open>ipAddress\<close> or \<open>userAgent\<close> is a non-empty string, and adds
  one to the counter in the cache. The referrer is stored in the row but does not decide
  whether there is one.
\<close>

theorem incrementClickCount_effects:
  assumes "db_env w = []" and "redis_env w = []"
    and "code \<in> short_code ` set (urls (db w))"
    and "\<forall>r \<in> set (urls (db w)). short_code r = code \<longrightarrow> click_count r < 2147483647"
    and "counters (redis w) (clicks_key code) \<noteq> Some 9223372036854775807"
    and "length code \<le> 10"
    and "\<forall>s. ipAddress md = Some s \<longrightarrow> length s \<le> 45"
    and "storable_text code"
    and "\<forall>s. ipAddress md = Some s \<longrightarrow> storable_text s"
    and "\<forall>s. userAgent md = Some s \<longrightarrow> storable_text s"
    and "\<forall>s. referrer md = Some s \<longrightarrow> storable_text s"
  shows "fst (incrementClickCount code md w) = Inr ()
    \<and> urls (db (snd (incrementClickCount code md w))) =
        map (\<lambda>r. if short_code r = code
                  then r\<lparr>click_count := click_count r + 1, last_accessed := Some (clock w)\<rparr>
                  else r) (urls (db w))
    \<and> clicks (db (snd (incrementClickCount code md w))) =
        (if truthy (ipAddress md) \<or> truthy (userAgent md)
         then clicks (db w) @
                [\<lparr>clicks_short_code = code, clicked_at = clock w,
                  ip_address = or_null (ipAddress md), user_agent = or_null (userAgent md),
                  clicks_referrer = or_null (referrer md)\<rparr>]
         else clicks (db w))
    \<and> counters (redis (snd (incrementClickCount code md w))) (clicks_key code) =
        Some ((case counters (redis w) (clicks_key code) of None \<Rightarrow> 0 | Some c \<Rightarrow> c) + 1)"
proof -
  define d1 where "d1 = (db w)\<lparr>urls := map (\<lambda>r. if short_code r = code
                  then r\<lparr>click_count := click_count r + 1, last_accessed := Some (clock w)\<rparr>
                  else r) (urls (db w))\<rparr>"
  define w1 where "w1 = w\<lparr>db_log := db_log w @ [UPDATE_urls_SET_click_count code], db_env := [], db := d1\<rparr>"
  have no_overflow: "\<not> (\<exists>r \<in> set (urls (db w)). short_code r = code \<and> 2147483647 < click_count r + 1)"
    using assms(4) by auto
  have received: "text_param code = Inr code"
    "text_param_null (or_null (ipAddress md)) = Inr (or_null (ipAddress md))"
    "text_param_null (or_null (userAgent md)) = Inr (or_null (userAgent md))"
    "text_param_null (or_null (referrer md)) = Inr (or_null (referrer md))"
    using assms(8-11)
    by (simp_all add: text_param_storable text_param_null_storable or_null_def)
  have key: "utf8 (clicks_key code) = clicks_key code"
    using assms(8) by (simp add: utf8_key storable_text_def)
  have q1: "query (UPDATE_urls_SET_click_count code) w = (Inr [], w1)"
    using assms(1) no_overflow received(1)
    by (simp add: query_def next_db_event_def Let_def w1_def d1_def)
  define bump :: "url_row \<Rightarrow> url_row" where "bump = (\<lambda>r. if short_code r = code
                  then r\<lparr>click_count := click_count r + 1, last_accessed := Some (clock w)\<rparr>
                  else r)"
  have "short_code (bump r) = short_code r" for r
    by (simp add: bump_def)
  then have "short_code ` set (map bump (urls (db w))) = short_code ` set (urls (db w))"
    by (rule image_set_map_preserved)
  moreover have "urls d1 = map bump (urls (db w))"
    by (simp add: d1_def bump_def)
  ultimately have "short_code ` set (urls d1) = short_code ` set (urls (db w))"
    by simp
  then have fk: "code \<in> short_code ` set (urls d1)"
    using assms(3) by simp
  define n where "n = (case counters (redis w) (clicks_key code) of None \<Rightarrow> 0 | Some c \<Rightarrow> c)"
  have n_ok: "n \<noteq> 9223372036854775807"
    using assms(5) by (auto simp: n_def split: option.splits)
  have w1_fields: "db w1 = d1" "db_env w1 = []" "redis_env w1 = []" "redis w1 = redis w"
    "clock w1 = clock w"
    using assms(2) by (simp_all add: w1_def)
  have incr: "cache_incr (clicks_key code) w' =
      (Some (n + 1), w'\<lparr>redis_env := [],
         redis := (redis w)\<lparr>counters := (counters (redis w))(clicks_key code \<mapsto> n + 1)\<rparr>\<rparr>)"
    if "redis_env w' = []" "redis w' = redis w" for w'
    using that n_ok
    by (simp add: cache_incr_def next_redis_fails_def Let_def key n_def [symmetric])
  show ?thesis
  proof (cases "truthy (ipAddress md) \<or> truthy (userAgent md)")
    case True
    define row where "row = \<lparr>clicks_short_code = code, clicked_at = clock w,
                  ip_address = or_null (ipAddress md), user_agent = or_null (userAgent md),
                  clicks_referrer = or_null (referrer md)\<rparr>"
    define st where "st = INSERT_INTO_clicks code (or_null (ipAddress md))
                               (or_null (userAgent md)) (or_null (referrer md))"
    define w2 where "w2 = w1\<lparr>db_log := db_log w1 @ [st], db_env := [],
                           db := d1\<lparr>clicks := clicks d1 @ [row]\<rparr>\<rparr>"
    have fits: "varchar 10 code = Inr code"
      "varchar_null 45 (or_null (ipAddress md)) = Inr (or_null (ipAddress md))"
      using assms(6,7)
      by (auto simp: varchar_short varchar_null_def or_null_def split: option.splits)
    have q2: "query st w1 = (Inr [], w2)"
      using fk w1_fields fits received
      by (simp add: query_def next_db_event_def Let_def w2_def st_def row_def)
    have w2_fields: "redis_env w2 = []" "redis w2 = redis w"
      using w1_fields by (simp_all add: w2_def)
    have "incrementClickCount code md w =
        (Inr (), w2\<lparr>redis_env := [],
           redis := (redis w)\<lparr>counters := (counters (redis w))(clicks_key code \<mapsto> n + 1)\<rparr>\<rparr>)"
      using True q1 q2 [unfolded st_def] incr [OF w2_fields]
      by (simp add: incrementClickCount_def incrementClickCount_try_def)
    then show ?thesis
      using True by (simp add: w2_def w1_def d1_def row_def n_def)
  next
    case False
    have "incrementClickCount code md w =
        (Inr (), w1\<lparr>redis_env := [],
           redis := (redis w)\<lparr>counters := (counters (redis w))(clicks_key code \<mapsto> n + 1)\<rparr>\<rparr>)"
      using False q1 incr [OF w1_fields(3,4)]
      by (simp add: incrementClickCount_def incrementClickCount_try_def)
    then show ?thesis
      using False by (simp add: w1_def d1_def n_def)
  qed
qed

text \<open>
  The claim as stated fails. With only a referrer present the click is counted and no
  row is inserted. And for a short code without a mapping the insert of the row fails
  on the foreign key, which ends the \<open>try\<close> block: there is no row and the counter in
  the cache is not incremented.
\<close>

theorem incrementClickCount_no_row:
  "truthy (referrer referrer_only)
   \<and> fst (incrementClickCount (str ''abc123'') referrer_only example_world) = Inr ()
   \<and> map click_count
        (urls (db (snd (incrementClickCount (str ''abc123'') referrer_only example_world)))) = [1]
   \<and> clicks (db (snd (incrementClickCount (str ''abc123'') referrer_only example_world))) = []
   \<and> truthy (ipAddress example_metadata)
   \<and> fst (incrementClickCount_try (str ''zzzzzz'') example_metadata example_world) =
       Inl (Database foreign_key_violation)
   \<and> clicks (db (snd (incrementClickCount (str ''zzzzzz'') example_metadata example_world))) = []
   \<and> counters (redis (snd (incrementClickCount (str ''zzzzzz'') example_metadata example_world)))
        (clicks_key (str ''zzzzzz'')) = None"
  by (simp add: incrementClickCount_def incrementClickCount_try_def query_def cache_incr_def
      Let_def referrer_only_def example_metadata_def truthy_def or_null_def varchar_def
      varchar_null_def characters_def example_simps)

theorem incrementClickCount_effects_witness:
  "fst (incrementClickCount (str ''abc123'') example_metadata example_world) = Inr ()
   \<and> map click_count (urls (db (snd (incrementClickCount (str ''abc123'') example_metadata example_world)))) = [1]
   \<and> map last_accessed (urls (db (snd (incrementClickCount (str ''abc123'') example_metadata example_world)))) = [Some 7]
   \<and> clicks (db (snd (incrementClickCount (str ''abc123'') example_metadata example_world))) =
        [\<lparr>clicks_short_code = str ''abc123'', clicked_at = 7,
          ip_address = Some (str ''203.0.113.9''), user_agent = Some (str ''curl/8.0''),
          clicks_referrer = None\<rparr>]
   \<and> counters (redis (snd (incrementClickCount (str ''abc123'') example_metadata example_world)))
        (clicks_key (str ''abc123'')) = Some 1"
proof -
  have "db_env example_world = []" "redis_env example_world = []"
    "str ''abc123'' \<in> short_code ` set (urls (db example_world))"
    "\<forall>r \<in> set (urls (db example_world)). short_code r = str ''abc123'' \<longrightarrow> click_count r < 2147483647"
    "counters (redis example_world) (clicks_key (str ''abc123'')) \<noteq> Some 9223372036854775807"
    "length (str ''abc123'') \<le> 10"
    "\<forall>s. ipAddress example_metadata = Some s \<longrightarrow> length s \<le> 45"
    "storable_text (str ''abc123'')"
    "\<forall>s. ipAddress example_metadata = Some s \<longrightarrow> storable_text s"
    "\<forall>s. userAgent example_metadata = Some s \<longrightarrow> storable_text s"
    "\<forall>s. referrer example_metadata = Some s \<longrightarrow> storable_text s"
    by (simp_all add: example_simps example_metadata_def storable_text_def)
  from incrementClickCount_effects [OF this]
  show ?thesis
    by (simp add: example_metadata_def truthy_def or_null_def example_simps)
qed



subsection \<open>createShortUrl\<close>

lemma snd_generateShortCode: "snd (generateShortCode len r) = r\<lparr>pos := pos r + len\<rparr>"
  by (simp add: generateShortCode_def randomBytes_def)

lemma default_length:
  "0 \<le> SHORT_CODE_LENGTH P \<Longrightarrow>
     generateShortCode_default P r = Inr (generateShortCode (nat (SHORT_CODE_LENGTH P)) r)"
  by (simp add: generateShortCode_default_def)

lemma nth_code_advance:
  assumes "rnd w2 = snd (generateShortCode (nat (SHORT_CODE_LENGTH P)) (rnd w))"
  shows "nth_code P w2 k = nth_code P w (Suc k)"
  by (simp add: nth_code_def assms snd_generateShortCode ac_simps)

lemma select_empty_iff:
  "filter (\<lambda>r. short_code r = code) (urls (db w)) = [] \<longleftrightarrow> code \<notin> taken w"
  by (auto simp: taken_def filter_empty_conv)

lemma query_lookup:
  assumes "set code \<subseteq> set BASE62_CHARS"
  shows "query (SELECT_id_WHERE_short_code code) w =
     (case next_db_event w of
        Throw e \<Rightarrow> Inl (Database e)
      | Proceed \<Rightarrow> Inr (filter (\<lambda>r. short_code r = code) (urls (db w))),
      w\<lparr>db_log := db_log w @ [SELECT_id_WHERE_short_code code], db_env := tl (db_env w)\<rparr>)"
  by (simp add: query_def Let_def text_param_code [OF assms] split: db_event.splits)

lemma next_db_event_cases:
  "next_db_event w = Proceed \<or> (\<exists>e. next_db_event w = Throw e \<and> Throw e \<in> set (db_env w))"
  by (cases "db_env w"; cases "hd (db_env w)") (auto simp: next_db_event_def)

lemma loop_invariant:
  assumes "createShortUrl_loop P g a w = (r, w')"
  shows "db w' = db w \<and> redis w' = redis w \<and> redis_env w' = redis_env w \<and> clock w' = clock w
    \<and> set (db_env w') \<subseteq> set (db_env w)
    \<and> (\<exists>new. db_log w' = db_log w @ new \<and> length new \<le> maxAttempts - a \<and> list_all is_lookup new)
    \<and> (\<forall>g' a'. r = Inr (g', a') \<longrightarrow> a' < maxAttempts \<longrightarrow>
          (\<exists>c. g' = Some c \<and> c \<notin> taken w \<and> set c \<subseteq> set BASE62_CHARS))
    \<and> (\<forall>g' a'. r = Inr (g', a') \<longrightarrow> a \<le> a' \<and> (a \<le> maxAttempts \<longrightarrow> a' \<le> maxAttempts))
    \<and> (\<forall>e. r = Inl e \<longrightarrow> e = RangeError \<or> (\<exists>x. e = Database x \<and> Throw x \<in> set (db_env w)))"
  using assms
proof (induction P g a w arbitrary: r w' rule: createShortUrl_loop.induct)
  case (1 P g a w)
  show ?case
  proof (cases "a < maxAttempts")
    case False
    with "1.prems" show ?thesis
      by (subst (asm) createShortUrl_loop.simps) auto
  next
    case True
    show ?thesis
    proof (cases "SHORT_CODE_LENGTH P < 0")
      case negative: True
      then have "createShortUrl_loop P g a w = (Inl RangeError, w)"
        using \<open>a < maxAttempts\<close>
        by (subst createShortUrl_loop.simps) (simp add: generateShortCode_default_def)
      with "1.prems" have "r = Inl RangeError" "w' = w" by simp_all
      then show ?thesis by simp
    next
      case False
      define code where "code = fst (generateShortCode (nat (SHORT_CODE_LENGTH P)) (rnd w))"
      define r0 where "r0 = snd (generateShortCode (nat (SHORT_CODE_LENGTH P)) (rnd w))"
      define w2 where "w2 = w\<lparr>rnd := r0, db_log := db_log w @ [SELECT_id_WHERE_short_code code],
          db_env := tl (db_env w)\<rparr>"
      have gen: "generateShortCode_default P (rnd w) = Inr (code, r0)"
        using False by (simp add: default_length code_def r0_def)
      have symbols: "set code \<subseteq> set BASE62_CHARS"
        unfolding code_def by (rule set_generateShortCode)
      have w2_fields: "db w2 = db w" "redis w2 = redis w" "redis_env w2 = redis_env w"
        "clock w2 = clock w" "db_env w2 = tl (db_env w)"
        "db_log w2 = db_log w @ [SELECT_id_WHERE_short_code code]"
        by (simp_all add: w2_def)
      have tl_sub: "set (tl (db_env w)) \<subseteq> set (db_env w)"
        by (cases "db_env w") auto
      then have tl_in: "x \<in> set (db_env w)" if "x \<in> set (tl (db_env w))" for x
        using that by blast
      from next_db_event_cases [of w] show ?thesis
      proof
        assume pr: "next_db_event w = Proceed"
        define rows where "rows = filter (\<lambda>r. short_code r = code) (urls (db w))"
        have q: "query (SELECT_id_WHERE_short_code code) (w\<lparr>rnd := r0\<rparr>) = (Inr rows, w2)"
          using pr by (simp add: query_lookup [OF symbols] next_db_event_def w2_def rows_def)
        show ?thesis
        proof (cases "rows = []")
          case True
          then have "createShortUrl_loop P g a w = (Inr (Some code, a), w2)"
            using \<open>a < maxAttempts\<close> gen q by (subst createShortUrl_loop.simps) simp
          with "1.prems" have res: "r = Inr (Some code, a)" "w' = w2" by simp_all
          have "code \<notin> taken w" using True by (simp add: rows_def select_empty_iff)
          moreover have "length [SELECT_id_WHERE_short_code code] \<le> maxAttempts - a"
            using \<open>a < maxAttempts\<close> by simp
          ultimately show ?thesis
            using res w2_fields tl_sub symbols by auto
        next
          case nonempty: False
          then have step: "createShortUrl_loop P g a w = createShortUrl_loop P (Some code) (a + 1) w2"
            using \<open>a < maxAttempts\<close> gen q by (subst createShortUrl_loop.simps) simp
          with "1.prems" have rec: "createShortUrl_loop P (Some code) (a + 1) w2 = (r, w')" by simp
          have "length rows \<noteq> 0" using nonempty by simp
          note IH = "1.IH" [OF \<open>a < maxAttempts\<close> gen refl q [symmetric] refl this rec]
          from IH obtain new where new: "db_log w' = db_log w2 @ new"
            "length new \<le> maxAttempts - (a + 1)" "list_all is_lookup new" by blast
          have "db_log w' = db_log w @ (SELECT_id_WHERE_short_code code # new)"
            "length (SELECT_id_WHERE_short_code code # new) \<le> maxAttempts - a"
            "list_all is_lookup (SELECT_id_WHERE_short_code code # new)"
            using new \<open>a < maxAttempts\<close> by (simp_all add: w2_fields)
          then have log: "\<exists>new. db_log w' = db_log w @ new \<and> length new \<le> maxAttempts - a
              \<and> list_all is_lookup new" by blast
          have tk: "taken w2 = taken w" by (simp add: taken_def w2_fields)
          from IH have env: "set (db_env w') \<subseteq> set (db_env w)"
            using w2_fields tl_sub by auto
          from IH have err: "\<forall>e. r = Inl e \<longrightarrow>
              e = RangeError \<or> (\<exists>x. e = Database x \<and> Throw x \<in> set (db_env w))"
            using w2_fields(5) tl_in by metis
          from IH have found: "\<forall>g' a'. r = Inr (g', a') \<longrightarrow> a' < maxAttempts \<longrightarrow>
              (\<exists>c. g' = Some c \<and> c \<notin> taken w \<and> set c \<subseteq> set BASE62_CHARS)"
            using tk by simp
          from IH have mono: "\<forall>g' a'. r = Inr (g', a') \<longrightarrow> a \<le> a' \<and> (a \<le> maxAttempts \<longrightarrow> a' \<le> maxAttempts)"
            using \<open>a < maxAttempts\<close> by auto
          from IH have "db w' = db w" "redis w' = redis w" "redis_env w' = redis_env w"
            "clock w' = clock w"
            using w2_fields by simp_all
          with env err found mono log show ?thesis by blast
        qed
      next
        assume "\<exists>e. next_db_event w = Throw e \<and> Throw e \<in> set (db_env w)"
        then obtain x where x: "next_db_event w = Throw x" "Throw x \<in> set (db_env w)" by blast
        have q: "query (SELECT_id_WHERE_short_code code) (w\<lparr>rnd := r0\<rparr>) = (Inl (Database x), w2)"
          using x(1) by (simp add: query_lookup [OF symbols] next_db_event_def w2_def)
        have "createShortUrl_loop P g a w = (Inl (Database x), w2)"
          using \<open>a < maxAttempts\<close> gen q by (subst createShortUrl_loop.simps) simp
        with "1.prems" have res: "r = Inl (Database x)" "w' = w2" by simp_all
        have "length [SELECT_id_WHERE_short_code code] \<le> maxAttempts - a"
          using \<open>a < maxAttempts\<close> by simp
        then show ?thesis
          using res w2_fields tl_sub x(2) by auto
      qed
    qed
  qed
qed

lemma loop_step:
  assumes "a < maxAttempts" "next_db_event w = Proceed" "0 \<le> SHORT_CODE_LENGTH P"
  shows "createShortUrl_loop P g a w =
     (if nth_code P w 0 \<notin> taken w then (Inr (Some (nth_code P w 0), a), after_lookup P w)
      else createShortUrl_loop P (Some (nth_code P w 0)) (a + 1) (after_lookup P w))"
proof -
  obtain code r0 where gen0: "generateShortCode (nat (SHORT_CODE_LENGTH P)) (rnd w) = (code, r0)"
    by (cases "generateShortCode (nat (SHORT_CODE_LENGTH P)) (rnd w)")
  then have code: "nth_code P w 0 = code"
    and r0: "snd (generateShortCode (nat (SHORT_CODE_LENGTH P)) (rnd w)) = r0"
    by (simp_all add: nth_code_def)
  have gen: "generateShortCode_default P (rnd w) = Inr (code, r0)"
    using assms(3) gen0 by (simp add: default_length)
  have symbols: "set code \<subseteq> set BASE62_CHARS"
    using set_generateShortCode [of "nat (SHORT_CODE_LENGTH P)" "rnd w"] gen0 by simp
  have q: "query (SELECT_id_WHERE_short_code code) (w\<lparr>rnd := r0\<rparr>) =
      (Inr (filter (\<lambda>r. short_code r = code) (urls (db w))), after_lookup P w)"
    using assms(2)
    by (simp add: query_lookup [OF symbols] next_db_event_def after_lookup_def code r0)
  show ?thesis
    using assms(1) select_empty_iff [of code w]
    by (subst createShortUrl_loop.simps) (simp add: gen q code)
qed

lemma after_lookup_fields:
  "db (after_lookup P w) = db w" "taken (after_lookup P w) = taken w"
  "db_env (after_lookup P w) = tl (db_env w)"
  "nth_code P (after_lookup P w) k = nth_code P w (Suc k)"
  by (simp_all add: after_lookup_def taken_def nth_code_advance)

lemma quiet_Proceed: "db_env w = [] \<Longrightarrow> next_db_event w = Proceed"
  by (simp add: next_db_event_def)

lemma loop_found:
  assumes "db_env w = []" "a + k < maxAttempts" "\<forall>j<k. nth_code P w j \<in> taken w"
    "nth_code P w k \<notin> taken w" "0 \<le> SHORT_CODE_LENGTH P"
  shows "\<exists>w'. createShortUrl_loop P g a w = (Inr (Some (nth_code P w k), a + k), w')
           \<and> db_env w' = []"
  using assms
proof (induction k arbitrary: g a w)
  case 0
  then show ?case
    by (simp add: loop_step quiet_Proceed after_lookup_fields)
next
  case (Suc k)
  have first: "nth_code P w 0 \<in> taken w" using Suc.prems(3) by simp
  have step: "createShortUrl_loop P g a w =
      createShortUrl_loop P (Some (nth_code P w 0)) (a + 1) (after_lookup P w)"
    using Suc.prems(1,2,5) first by (simp add: loop_step quiet_Proceed)
  have "\<exists>w'. createShortUrl_loop P (Some (nth_code P w 0)) (a + 1) (after_lookup P w) =
      (Inr (Some (nth_code P (after_lookup P w) k), a + 1 + k), w') \<and> db_env w' = []"
  proof (rule Suc.IH)
    show "db_env (after_lookup P w) = []" using Suc.prems(1) by (simp add: after_lookup_fields)
    show "a + 1 + k < maxAttempts" using Suc.prems(2) by simp
    show "\<forall>j<k. nth_code P (after_lookup P w) j \<in> taken (after_lookup P w)"
      using Suc.prems(3) by (simp add: after_lookup_fields)
    show "nth_code P (after_lookup P w) k \<notin> taken (after_lookup P w)"
      using Suc.prems(4) by (simp add: after_lookup_fields)
    show "0 \<le> SHORT_CODE_LENGTH P" by (rule Suc.prems(5))
  qed
  then show ?case
    by (simp add: step after_lookup_fields)
qed

lemma loop_exhausted:
  assumes "db_env w = []" "a \<le> maxAttempts" "\<forall>j<maxAttempts - a. nth_code P w j \<in> taken w"
    "0 \<le> SHORT_CODE_LENGTH P"
  shows "\<exists>g' w'. createShortUrl_loop P g a w = (Inr (g', maxAttempts), w')"
  using assms
proof (induction n \<equiv> "maxAttempts - a" arbitrary: g a w)
  case 0
  then have "a = maxAttempts" by simp
  then show ?case by (subst createShortUrl_loop.simps) simp
next
  case (Suc n)
  then have lt: "a < maxAttempts" by simp
  have first: "nth_code P w 0 \<in> taken w" using Suc.prems(3) lt by simp
  have step: "createShortUrl_loop P g a w =
      createShortUrl_loop P (Some (nth_code P w 0)) (a + 1) (after_lookup P w)"
    using Suc.prems(1,4) lt first by (simp add: loop_step quiet_Proceed)
  have "\<exists>g' w'. createShortUrl_loop P (Some (nth_code P w 0)) (a + 1) (after_lookup P w) =
      (Inr (g', maxAttempts), w')"
  proof (rule Suc.hyps(1))
    show "n = maxAttempts - (a + 1)" using Suc.hyps(2) by simp
    show "db_env (after_lookup P w) = []" using Suc.prems(1) by (simp add: after_lookup_fields)
    show "a + 1 \<le> maxAttempts" using lt by simp
    show "\<forall>j<maxAttempts - (a + 1). nth_code P (after_lookup P w) j \<in> taken (after_lookup P w)"
      using Suc.prems(3) by (simp add: after_lookup_fields)
    show "0 \<le> SHORT_CODE_LENGTH P" by (rule Suc.prems(4))
  qed
  then show ?case by (simp add: step)
qed

lemma after_dedup_fields:
  "db (after_dedup url w) = db w" "taken (after_dedup url w) = taken w"
  "db_env (after_dedup url w) = tl (db_env w)" "clock (after_dedup url w) = clock w"
  "nth_code P (after_dedup url w) k = nth_code P w k"
  "db_log (after_dedup url w) = db_log w @ [SELECT_urls_WHERE_original_url (normalizeUrl url)]"
  by (simp_all add: after_dedup_def taken_def nth_code_def)

lemma query_dedup:
  "query (SELECT_urls_WHERE_original_url (normalizeUrl url)) w =
     (case next_db_event w of
        Throw e \<Rightarrow> Inl (Database e)
      | Proceed \<Rightarrow>
          if 0 \<in> set (normalizeUrl url) then Inl (Database character_not_in_repertoire)
          else Inr (filter (\<lambda>r. original_url r = utf8 (normalizeUrl url)) (urls (db w))),
      after_dedup url w)"
  by (simp add: query_def Let_def after_dedup_def text_param_def split: db_event.splits)

lemma varchar_code:
  assumes "set c \<subseteq> set BASE62_CHARS"
  shows "varchar n c = (if length c \<le> n then Inr c else Inl string_data_right_truncation)"
proof (cases "length c \<le> n")
  case True
  then show ?thesis by (simp add: varchar_short)
next
  case False
  have chars: "characters c = length c"
    using assms by (simp add: characters_plain base62_code)
  have keep: "length c - (length c - n) = n"
    using False by simp
  from False have "drop n c \<noteq> []" by simp
  then obtain x where x: "x \<in> set (drop n c)" by (cases "drop n c") auto
  then have "x \<in> set BASE62_CHARS" using assms by (auto dest: in_set_dropD)
  then have "base62_symbol x" by (rule in_base62_symbol)
  then have "x \<noteq> 0x20" by (auto simp: base62_symbol_def)
  with x have "\<not> list_all (\<lambda>c. c = 0x20) (drop n c)" by (auto simp: list_all_iff)
  with False show ?thesis by (simp add: varchar_def chars keep)
qed

lemma query_insert:
  assumes "set c \<subseteq> set BASE62_CHARS" "0 \<notin> set url"
  shows "query (INSERT_INTO_urls (Some c) url) w =
     (case next_db_event w of
        Throw e \<Rightarrow> (Inl (Database e),
                     w\<lparr>db_log := db_log w @ [INSERT_INTO_urls (Some c) url], db_env := tl (db_env w)\<rparr>)
      | Proceed \<Rightarrow>
          if \<not> length c \<le> 10
          then (Inl (Database string_data_right_truncation),
                w\<lparr>db_log := db_log w @ [INSERT_INTO_urls (Some c) url], db_env := tl (db_env w)\<rparr>)
          else if c \<in> taken w
          then (Inl (Database unique_violation),
                w\<lparr>db_log := db_log w @ [INSERT_INTO_urls (Some c) url], db_env := tl (db_env w)\<rparr>)
          else (Inr [new_url_row c (utf8 url) (clock w)],
                w\<lparr>db_log := db_log w @ [INSERT_INTO_urls (Some c) url], db_env := tl (db_env w),
                  db := (db w)\<lparr>urls := urls (db w) @ [new_url_row c (utf8 url) (clock w)]\<rparr>\<rparr>))"
proof -
  have received: "text_param_null (Some c) = Inr (Some c)" "text_param url = Inr (utf8 url)"
    using assms(2) text_param_code [OF assms(1)]
    by (simp_all add: text_param_null_def text_param_def)
  show ?thesis
    by (simp add: query_def Let_def taken_def new_url_row_def received
        varchar_code [OF assms(1)] split: db_event.splits)
qed

lemma fresh_no_rows:
  "u \<notin> original_url ` set (urls (db w)) \<Longrightarrow>
     filter (\<lambda>r. original_url r = u) (urls (db w)) = []"
  by (force simp: filter_empty_conv)

lemma nth_code_symbols: "set (nth_code P w k) \<subseteq> set BASE62_CHARS"
  unfolding nth_code_def by (rule set_generateShortCode)

lemma nth_code_length: "length (nth_code P w k) = nat (SHORT_CODE_LENGTH P)"
  unfolding nth_code_def by (rule length_generateShortCode)

lemma createShortUrl_found:
  assumes valid: "isValidUrl P url = Inr True"
    and storable: "0 \<notin> set (normalizeUrl url)"
    and fresh: "utf8 (normalizeUrl url) \<notin> original_url ` set (urls (db w))"
    and quiet: "db_env w = []"
    and fits: "0 < SHORT_CODE_LENGTH P" "SHORT_CODE_LENGTH P \<le> 10"
    and k: "k < maxAttempts" "\<forall>j<k. nth_code P w j \<in> taken w" "nth_code P w k \<notin> taken w"
  shows "fst (createShortUrl P url w) =
      Inr \<lparr>originalUrl = utf8 (normalizeUrl url), shortCode = nth_code P w k,
           shortUrl = env_BASE_URL P @ str ''/'' @ nth_code P w k,
           createdAt = Some (clock w), isNew = True\<rparr>"
    and "db (snd (createShortUrl P url w)) =
      (db w)\<lparr>urls := urls (db w) @
         [new_url_row (nth_code P w k) (utf8 (normalizeUrl url)) (clock w)]\<rparr>"
proof -
  define n where "n = normalizeUrl url"
  define c where "c = nth_code P w k"
  define w1 where "w1 = after_dedup url w"
  have nonneg: "0 \<le> SHORT_CODE_LENGTH P" using fits(1) by simp
  have q1: "query (SELECT_urls_WHERE_original_url n) w = (Inr [], w1)"
    using quiet fresh storable
    by (simp add: query_dedup quiet_Proceed fresh_no_rows w1_def n_def)
  have "\<exists>w'. createShortUrl_loop P None 0 w1 = (Inr (Some (nth_code P w1 k), 0 + k), w')
           \<and> db_env w' = []"
    using quiet k nonneg unfolding w1_def by (intro loop_found) (simp_all add: after_dedup_fields)
  then obtain w2 where l: "createShortUrl_loop P None 0 w1 = (Inr (Some c, k), w2)"
    and env2: "db_env w2 = []"
    by (auto simp: w1_def after_dedup_fields c_def)
  from loop_invariant [OF l] have w2: "db w2 = db w" "clock w2 = clock w"
    by (simp_all add: w1_def after_dedup_fields)
  then have free: "c \<notin> taken w2" using k(3) by (simp add: taken_def c_def)
  define w3 where "w3 = w2\<lparr>db_log := db_log w2 @ [INSERT_INTO_urls (Some c) n], db_env := tl (db_env w2),
                  db := (db w2)\<lparr>urls := urls (db w2) @ [new_url_row c (utf8 n) (clock w2)]\<rparr>\<rparr>"
  have symbols: "set c \<subseteq> set BASE62_CHARS"
    unfolding c_def by (rule nth_code_symbols)
  have short: "length c \<le> 10"
    using fits(2) by (simp add: c_def nth_code_length)
  have q3: "query (INSERT_INTO_urls (Some c) n) w2 = (Inr [new_url_row c (utf8 n) (clock w2)], w3)"
    using env2 free short storable
    by (simp add: query_insert [OF symbols] quiet_Proceed w3_def n_def)
  obtain b w4 where s: "cache_set (url_key c) \<lparr>originalUrl = utf8 n, shortCode = c\<rparr> w3 = (b, w4)"
    by (cases "cache_set (url_key c) \<lparr>originalUrl = utf8 n, shortCode = c\<rparr> w3")
  have w4: "db w4 = db w3" by (rule cache_set_frame(1) [OF s])
  have res: "createShortUrl P url w =
      (Inr \<lparr>originalUrl = utf8 n, shortCode = c, shortUrl = env_BASE_URL P @ str ''/'' @ c,
            createdAt = Some (clock w2), isNew = True\<rparr>, w4)"
    using valid k(1) q1 l q3 s
    by (simp add: createShortUrl_def n_def [symmetric] to_string_def new_url_row_def)
  show "fst (createShortUrl P url w) =
      Inr \<lparr>originalUrl = utf8 (normalizeUrl url), shortCode = nth_code P w k,
           shortUrl = env_BASE_URL P @ str ''/'' @ nth_code P w k,
           createdAt = Some (clock w), isNew = True\<rparr>"
    using res w2 by (simp add: n_def c_def)
  show "db (snd (createShortUrl P url w)) =
      (db w)\<lparr>urls := urls (db w) @
         [new_url_row (nth_code P w k) (utf8 (normalizeUrl url)) (clock w)]\<rparr>"
    using res w4 w2 by (simp add: w3_def n_def c_def)
qed

lemma createShortUrl_exhausted:
  assumes valid: "isValidUrl P url = Inr True"
    and storable: "0 \<notin> set (normalizeUrl url)"
    and fresh: "utf8 (normalizeUrl url) \<notin> original_url ` set (urls (db w))"
    and quiet: "db_env w = []"
    and nonneg: "0 < SHORT_CODE_LENGTH P"
    and all: "\<forall>k<maxAttempts. nth_code P w k \<in> taken w"
  shows "fst (createShortUrl P url w) = Inl Failed_to_generate_unique_short_code"
    and "db (snd (createShortUrl P url w)) = db w"
proof -
  define n where "n = normalizeUrl url"
  define w1 where "w1 = after_dedup url w"
  have q1: "query (SELECT_urls_WHERE_original_url n) w = (Inr [], w1)"
    using quiet fresh storable
    by (simp add: query_dedup quiet_Proceed fresh_no_rows w1_def n_def)
  have "\<exists>g' w'. createShortUrl_loop P None 0 w1 = (Inr (g', maxAttempts), w')"
    using quiet all nonneg unfolding w1_def
    by (intro loop_exhausted) (simp_all add: after_dedup_fields)
  then obtain g' w2 where l: "createShortUrl_loop P None 0 w1 = (Inr (g', maxAttempts), w2)"
    by blast
  from loop_invariant [OF l] have w2: "db w2 = db w"
    by (simp add: w1_def after_dedup_fields)
  have res: "createShortUrl P url w = (Inl Failed_to_generate_unique_short_code, w2)"
    using valid q1 l by (simp add: createShortUrl_def n_def [symmetric])
  show "fst (createShortUrl P url w) = Inl Failed_to_generate_unique_short_code"
    using res by simp
  show "db (snd (createShortUrl P url w)) = db w"
    using res w2 by simp
qed

lemma first_free:
  fixes m :: nat
  assumes "\<not> (\<forall>k<m. p k)"
  obtains k where "k < m" "\<forall>j<k. p j" "\<not> p k"
proof -
  define k where "k = (LEAST k. \<not> p k)"
  from assms obtain k0 where k0: "k0 < m" "\<not> p k0" by blast
  have 1: "\<not> p k" unfolding k_def using LeastI [of "\<lambda>k. \<not> p k" k0] k0(2) by simp
  have "k \<le> k0" unfolding k_def using Least_le [of "\<lambda>k. \<not> p k" k0] k0(2) by simp
  then have 2: "k < m" using k0(1) by simp
  have 3: "\<forall>j<k. p j" unfolding k_def using not_less_Least [of _ "\<lambda>k. \<not> p k"] by blast
  show thesis using 2 3 1 by (rule that)
qed

text \<open>
  C6, as amended: for a valid URL without a mapping and without the character U+0000, and
  a configured code length from 1 to 10, which fits the column, in a run where the store
  answers every call: \<open>createShortUrl\<close> fails with "Failed to generate unique short code"
  exactly when the first \<open>maxAttempts = 5\<close> generated codes are all in use, and then the
  tables are unchanged; and when the first \<open>k < 5\<close> codes are in use and the next one is
  free, it succeeds with that free code, adding the one row for it. The URL of the row and
  of the result is the normalized URL as the store receives it.
\<close>

theorem createShortUrl_collisions:
  assumes valid: "isValidUrl P url = Inr True"
    and storable: "0 \<notin> set (normalizeUrl url)"
    and fresh: "utf8 (normalizeUrl url) \<notin> original_url ` set (urls (db w))"
    and quiet: "db_env w = []"
    and fits: "0 < SHORT_CODE_LENGTH P" "SHORT_CODE_LENGTH P \<le> 10"
  shows "(fst (createShortUrl P url w) = Inl Failed_to_generate_unique_short_code
            \<longleftrightarrow> (\<forall>k<maxAttempts. nth_code P w k \<in> taken w))
    \<and> (fst (createShortUrl P url w) = Inl Failed_to_generate_unique_short_code
            \<longrightarrow> db (snd (createShortUrl P url w)) = db w)
    \<and> (\<forall>k<maxAttempts. (\<forall>j<k. nth_code P w j \<in> taken w) \<and> nth_code P w k \<notin> taken w \<longrightarrow>
          fst (createShortUrl P url w) =
            Inr \<lparr>originalUrl = utf8 (normalizeUrl url), shortCode = nth_code P w k,
                 shortUrl = env_BASE_URL P @ str ''/'' @ nth_code P w k,
                 createdAt = Some (clock w), isNew = True\<rparr>
          \<and> urls (db (snd (createShortUrl P url w))) =
              urls (db w) @ [new_url_row (nth_code P w k) (utf8 (normalizeUrl url)) (clock w)])"
proof -
  have found: "fst (createShortUrl P url w) =
            Inr \<lparr>originalUrl = utf8 (normalizeUrl url), shortCode = nth_code P w k,
                 shortUrl = env_BASE_URL P @ str ''/'' @ nth_code P w k,
                 createdAt = Some (clock w), isNew = True\<rparr>
          \<and> urls (db (snd (createShortUrl P url w))) =
              urls (db w) @ [new_url_row (nth_code P w k) (utf8 (normalizeUrl url)) (clock w)]"
    if "k < maxAttempts" "\<forall>j<k. nth_code P w j \<in> taken w" "nth_code P w k \<notin> taken w" for k
    using createShortUrl_found [OF valid storable fresh quiet fits that] by simp
  have iff: "fst (createShortUrl P url w) = Inl Failed_to_generate_unique_short_code
            \<longleftrightarrow> (\<forall>k<maxAttempts. nth_code P w k \<in> taken w)"
  proof
    assume failed: "fst (createShortUrl P url w) = Inl Failed_to_generate_unique_short_code"
    show "\<forall>k<maxAttempts. nth_code P w k \<in> taken w"
    proof (rule ccontr)
      assume "\<not> (\<forall>k<maxAttempts. nth_code P w k \<in> taken w)"
      then obtain k where "k < maxAttempts" "\<forall>j<k. nth_code P w j \<in> taken w"
        "nth_code P w k \<notin> taken w"
        by (rule first_free)
      from found [OF this] failed show False by simp
    qed
  next
    assume "\<forall>k<maxAttempts. nth_code P w k \<in> taken w"
    then show "fst (createShortUrl P url w) = Inl Failed_to_generate_unique_short_code"
      by (rule createShortUrl_exhausted(1) [OF valid storable fresh quiet fits(1)])
  qed
  have "db (snd (createShortUrl P url w)) = db w"
    if "fst (createShortUrl P url w) = Inl Failed_to_generate_unique_short_code"
    using that iff createShortUrl_exhausted(2) [OF valid storable fresh quiet fits(1)] by blast
  with iff found show ?thesis by blast
qed

lemma is_lookup_not_insert: "is_lookup st \<Longrightarrow> \<not> is_insert st"
  by (cases st) simp_all

lemma lookups_only:
  assumes "list_all is_lookup new"
  shows "filter is_insert new = []" "length (filter is_lookup new) = length new"
  using assms by (induction new) (simp_all add: is_lookup_not_insert)

lemma createShortUrl_trace:
  "\<exists>new. db_log (snd (createShortUrl P url w)) = db_log w @ new
     \<and> length (filter is_lookup new) \<le> maxAttempts
     \<and> length (filter is_insert new) \<le> 1
     \<and> (fst (createShortUrl P url w) = Inl (Database unique_violation) \<longrightarrow>
          Throw unique_violation \<in> set (db_env w))"
proof -
  define n where "n = normalizeUrl url"
  define w1 where "w1 = after_dedup url w"
  define dedup where "dedup = SELECT_urls_WHERE_original_url n"
  have log1: "db_log w1 = db_log w @ [dedup]"
    by (simp add: w1_def dedup_def n_def after_dedup_fields)
  have env1: "x \<in> set (db_env w)" if "x \<in> set (db_env w1)" for x
    using that by (cases "db_env w") (simp_all add: w1_def after_dedup_fields)
  obtain b where b: "isValidUrl P url = Inr b"
    by (cases "isValidUrl P url") (simp_all add: isValidUrl_def split: sum.splits)
  show ?thesis
  proof (cases b)
    case False
    then have "createShortUrl P url w = (Inl Invalid_URL_format, w)"
      using b by (simp add: createShortUrl_def)
    then show ?thesis by simp
  next
    case True
    from next_db_event_cases [of w]
    consider "\<exists>e. next_db_event w = Throw e \<and> Throw e \<in> set (db_env w)"
      | "next_db_event w = Proceed" "0 \<in> set n"
      | "next_db_event w = Proceed" "0 \<notin> set n"
      by blast
    then show ?thesis
    proof cases
      assume "\<exists>e. next_db_event w = Throw e \<and> Throw e \<in> set (db_env w)"
      then obtain x where x: "next_db_event w = Throw x" "Throw x \<in> set (db_env w)" by blast
      have "createShortUrl P url w = (Inl (Database x), w1)"
        using b True x(1) by (simp add: createShortUrl_def query_dedup w1_def)
      then show ?thesis using x(2) log1 by (auto simp: dedup_def)
    next
      assume "next_db_event w = Proceed" "0 \<in> set n"
      then have "createShortUrl P url w = (Inl (Database character_not_in_repertoire), w1)"
        using b True by (simp add: createShortUrl_def query_dedup w1_def n_def)
      then show ?thesis using log1 by (auto simp: dedup_def)
    next
      assume pr: "next_db_event w = Proceed" and storable: "0 \<notin> set n"
      define rows where "rows = filter (\<lambda>r. original_url r = utf8 n) (urls (db w))"
      have q1: "query (SELECT_urls_WHERE_original_url n) w = (Inr rows, w1)"
        using pr storable by (simp add: query_dedup w1_def rows_def n_def)
      show ?thesis
      proof (cases rows)
        case (Cons existing rest)
        obtain c w2 where s: "cache_set (url_key (short_code existing))
            \<lparr>originalUrl = original_url existing, shortCode = short_code existing\<rparr> w1 = (c, w2)"
          by (cases "cache_set (url_key (short_code existing))
            \<lparr>originalUrl = original_url existing, shortCode = short_code existing\<rparr> w1")
        have "createShortUrl P url w =
            (Inr \<lparr>originalUrl = original_url existing, shortCode = short_code existing,
                  shortUrl = env_BASE_URL P @ str ''/'' @ short_code existing,
                  createdAt = None, isNew = False\<rparr>, w2)"
          using b True q1 Cons s by (simp add: createShortUrl_def n_def [symmetric])
        then show ?thesis
          using cache_set_frame(3) [OF s] log1 by (simp add: dedup_def)
      next
        case Nil
        obtain r2 w2 where l: "createShortUrl_loop P None 0 w1 = (r2, w2)"
          by (cases "createShortUrl_loop P None 0 w1")
        note inv = loop_invariant [OF l]
        from inv obtain new2 where new2: "db_log w2 = db_log w1 @ new2"
          "length new2 \<le> maxAttempts" "list_all is_lookup new2" by auto
        have log2: "db_log w2 = db_log w @ (dedup # new2)"
          "length (filter is_lookup (dedup # new2)) \<le> maxAttempts"
          "filter is_insert (dedup # new2) = []"
          using new2 log1 lookups_only [OF new2(3)] by (simp_all add: dedup_def)
        from inv have env2: "x \<in> set (db_env w)" if "x \<in> set (db_env w2)" for x
          using that env1 by blast
        show ?thesis
        proof (cases r2)
          case (Inl e)
          with inv have e: "e = RangeError \<or> (\<exists>x. e = Database x \<and> Throw x \<in> set (db_env w1))"
            by blast
          have "createShortUrl P url w = (Inl e, w2)"
            using b True q1 Nil l Inl by (simp add: createShortUrl_def n_def [symmetric])
          then show ?thesis
            using e env1 log2 by auto
        next
          case (Inr ga)
          obtain g' a' where ga: "ga = (g', a')" by (cases ga)
          show ?thesis
          proof (cases "a' = maxAttempts")
            case True
            have "createShortUrl P url w = (Inl Failed_to_generate_unique_short_code, w2)"
              using b \<open>b\<close> q1 Nil l Inr ga True
              by (simp add: createShortUrl_def n_def [symmetric])
            then show ?thesis using log2 by auto
          next
            case False
            from inv Inr ga have "a' \<le> maxAttempts" by simp
            with False have lt: "a' < maxAttempts" by simp
            with inv Inr ga obtain c where c: "g' = Some c" "c \<notin> taken w1"
              "set c \<subseteq> set BASE62_CHARS" by blast
            from inv have "taken w2 = taken w1" by (simp add: taken_def)
            with c have free: "c \<notin> taken w2" by simp
            define ins where "ins = INSERT_INTO_urls (Some c) n"
            have not_lookup: "\<not> is_lookup ins" "is_insert ins" by (simp_all add: ins_def)
            note insert = query_insert [OF c(3) storable, of w2]
            from next_db_event_cases [of w2]
            consider "\<exists>e. next_db_event w2 = Throw e \<and> Throw e \<in> set (db_env w2)"
              | "next_db_event w2 = Proceed" "\<not> length c \<le> 10"
              | "next_db_event w2 = Proceed" "length c \<le> 10"
              by blast
            then show ?thesis
            proof cases
              assume "\<exists>e. next_db_event w2 = Throw e \<and> Throw e \<in> set (db_env w2)"
              then obtain x where x: "next_db_event w2 = Throw x" "Throw x \<in> set (db_env w2)"
                by blast
              define w3 where "w3 = w2\<lparr>db_log := db_log w2 @ [ins], db_env := tl (db_env w2)\<rparr>"
              have q3: "query (INSERT_INTO_urls (Some c) n) w2 = (Inl (Database x), w3)"
                using x(1) by (simp add: insert w3_def ins_def)
              have "createShortUrl P url w = (Inl (Database x), w3)"
                using b \<open>b\<close> q1 Nil l Inr ga False c(1) q3
                by (simp add: createShortUrl_def n_def [symmetric])
              moreover have "db_log w3 = db_log w @ (dedup # new2 @ [ins])"
                using log2(1) by (simp add: w3_def)
              moreover have "length (filter is_lookup (dedup # new2 @ [ins])) \<le> maxAttempts"
                "length (filter is_insert (dedup # new2 @ [ins])) \<le> 1"
                using log2(2,3) not_lookup by (simp_all add: dedup_def)
              ultimately show ?thesis
                using env2 [OF x(2)] by auto
            next
              assume pr2: "next_db_event w2 = Proceed" and long: "\<not> length c \<le> 10"
              define w3 where "w3 = w2\<lparr>db_log := db_log w2 @ [ins], db_env := tl (db_env w2)\<rparr>"
              have q3: "query (INSERT_INTO_urls (Some c) n) w2 =
                  (Inl (Database string_data_right_truncation), w3)"
                using pr2 long by (simp add: insert w3_def ins_def)
              have "createShortUrl P url w = (Inl (Database string_data_right_truncation), w3)"
                using b \<open>b\<close> q1 Nil l Inr ga False c(1) q3
                by (simp add: createShortUrl_def n_def [symmetric])
              moreover have "db_log w3 = db_log w @ (dedup # new2 @ [ins])"
                using log2(1) by (simp add: w3_def)
              moreover have "length (filter is_lookup (dedup # new2 @ [ins])) \<le> maxAttempts"
                "length (filter is_insert (dedup # new2 @ [ins])) \<le> 1"
                using log2(2,3) not_lookup by (simp_all add: dedup_def)
              ultimately show ?thesis by auto
            next
              assume pr2: "next_db_event w2 = Proceed" and short: "length c \<le> 10"
              define row where "row = new_url_row c (utf8 n) (clock w2)"
              define w3 where "w3 = w2\<lparr>db_log := db_log w2 @ [ins], db_env := tl (db_env w2),
                  db := (db w2)\<lparr>urls := urls (db w2) @ [row]\<rparr>\<rparr>"
              have q3: "query (INSERT_INTO_urls (Some c) n) w2 = (Inr [row], w3)"
                using pr2 free short
                by (simp add: insert w3_def ins_def row_def)
              obtain d w4 where s: "cache_set (url_key c)
                  \<lparr>originalUrl = original_url row, shortCode = short_code row\<rparr> w3 = (d, w4)"
                by (cases "cache_set (url_key c)
                  \<lparr>originalUrl = original_url row, shortCode = short_code row\<rparr> w3")
              have "createShortUrl P url w =
                  (Inr \<lparr>originalUrl = original_url row, shortCode = short_code row,
                        shortUrl = env_BASE_URL P @ str ''/'' @ short_code row,
                        createdAt = Some (created_at row), isNew = True\<rparr>, w4)"
                using b \<open>b\<close> q1 Nil l Inr ga False c(1) q3 s
                by (simp add: createShortUrl_def n_def [symmetric] to_string_def)
              moreover have "db_log w4 = db_log w @ (dedup # new2 @ [ins])"
                using log2(1) cache_set_frame(3) [OF s] by (simp add: w3_def)
              moreover have "length (filter is_lookup (dedup # new2 @ [ins])) \<le> maxAttempts"
                "length (filter is_insert (dedup # new2 @ [ins])) \<le> 1"
                using log2(2,3) not_lookup by (simp_all add: dedup_def)
              ultimately show ?thesis by auto
            qed
          qed
        qed
      qed
    qed
  qed
qed

lemma createShortUrl_insert_error:
  assumes "isValidUrl P url = Inr True"
    and "query (SELECT_urls_WHERE_original_url (normalizeUrl url)) w = (Inr [], w1)"
    and "createShortUrl_loop P None 0 w1 = (Inr (generated, attempts), w2)"
    and "attempts \<noteq> maxAttempts"
    and "query (INSERT_INTO_urls generated (normalizeUrl url)) w2 = (Inl e, w3)"
  shows "createShortUrl P url w = (Inl e, w3)"
  using assms by (simp add: createShortUrl_def)

text \<open>
  C1, as amended: \<open>createShortUrl\<close> finds a collision by looking the generated code up
  before the insert. It makes at most 5 lookups and at most one insert per call; when the
  first \<open>k < 5\<close> codes are in use and the next is free, it succeeds with that code; it
  returns a unique violation only if the database rejects a call with one, which the
  tables alone never cause, since the inserted code has just been looked up. And an
  error of the insert, a unique violation like any other, is not caught: when the URL is
  valid, the lookup by URL has found no row and the loop has left with a code, the error
  that the insert raises is the result of \<open>createShortUrl\<close>, in the world that the insert
  has left, so that no other code is tried.
\<close>

theorem createShortUrl_unique_violation:
  "(Throw unique_violation \<notin> set (db_env w) \<longrightarrow>
      fst (createShortUrl P url w) \<noteq> Inl (Database unique_violation))
   \<and> length (filter is_lookup (issued w (snd (createShortUrl P url w)))) \<le> maxAttempts
   \<and> length (filter is_insert (issued w (snd (createShortUrl P url w)))) \<le> 1
   \<and> (isValidUrl P url = Inr True \<and> 0 \<notin> set (normalizeUrl url)
        \<and> utf8 (normalizeUrl url) \<notin> original_url ` set (urls (db w))
        \<and> db_env w = [] \<and> 0 < SHORT_CODE_LENGTH P \<and> SHORT_CODE_LENGTH P \<le> 10 \<longrightarrow>
       (\<forall>k<maxAttempts. (\<forall>j<k. nth_code P w j \<in> taken w) \<and> nth_code P w k \<notin> taken w \<longrightarrow>
          fst (createShortUrl P url w) =
            Inr \<lparr>originalUrl = utf8 (normalizeUrl url), shortCode = nth_code P w k,
                 shortUrl = env_BASE_URL P @ str ''/'' @ nth_code P w k,
                 createdAt = Some (clock w), isNew = True\<rparr>))
   \<and> (isValidUrl P url = Inr True
        \<and> query (SELECT_urls_WHERE_original_url (normalizeUrl url)) w = (Inr [], w1)
        \<and> createShortUrl_loop P None 0 w1 = (Inr (generated, attempts), w2)
        \<and> attempts \<noteq> maxAttempts
        \<and> query (INSERT_INTO_urls generated (normalizeUrl url)) w2 = (Inl e, w3) \<longrightarrow>
       createShortUrl P url w = (Inl e, w3))"
proof -
  from createShortUrl_trace [of P url w] obtain new where
    new: "db_log (snd (createShortUrl P url w)) = db_log w @ new"
      "length (filter is_lookup new) \<le> maxAttempts" "length (filter is_insert new) \<le> 1"
      "fst (createShortUrl P url w) = Inl (Database unique_violation) \<longrightarrow>
          Throw unique_violation \<in> set (db_env w)"
    by blast
  have "issued w (snd (createShortUrl P url w)) = new"
    using new(1) by (simp add: issued_def)
  with new createShortUrl_found(1) [of P url w]
    createShortUrl_insert_error [of P url w w1 generated attempts w2 e w3]
  show ?thesis by blast
qed

lemma fst_generateShortCode:
  "fst (generateShortCode len r) =
     map (\<lambda>i. BASE62_CHARS ! (unat (tape r (pos r + i)) mod 62)) [0..<len]"
  by (simp add: generateShortCode_def randomBytes_def list_eq_iff_nth_eq)

lemma nth_code_eq:
  "nth_code P w k =
     map (\<lambda>i. BASE62_CHARS !
               (unat (tape (rnd w) (pos (rnd w) + k * nat (SHORT_CODE_LENGTH P) + i)) mod 62))
       [0..<nat (SHORT_CODE_LENGTH P)]"
  by (simp add: nth_code_def fst_generateShortCode)

lemma example_length: "SHORT_CODE_LENGTH example_platform = 6"
  by (simp add: SHORT_CODE_LENGTH_def example_platform_def)

lemma example_fits:
  "0 < SHORT_CODE_LENGTH example_platform" "SHORT_CODE_LENGTH example_platform \<le> 10"
  by (simp_all add: example_length)

lemma example_url:
  "isValidUrl example_platform (str ''https://example.com/b'') = Inr True"
  "normalizeUrl (str ''https://example.com/b'') = str ''https://example.com/b''"
  "utf8 (str ''https://example.com/b'') = str ''https://example.com/b''"
  "0 \<notin> set (str ''https://example.com/b'')"
  by (simp_all add: isValidUrl_def isValidUrl_try_def example_platform_def example_URL_def
      normalizeUrl_def trim_def isWhiteSpace_def match_scheme_def remove_trailing_slash_def
      str_def fold_case_def is_high_surrogate_def is_low_surrogate_def)

text \<open>The steps of \<open>createShortUrl\<close> in the world where the insert is rejected with a
  unique violation: the lookup by URL finds no row, the first code \<open>000000\<close> is free,
  and the insert raises the error.\<close>

lemma example_race_steps:
  "query (SELECT_urls_WHERE_original_url (normalizeUrl (str ''https://example.com/b'')))
     example_race = (Inr [], after_dedup (str ''https://example.com/b'') example_race)"
  "createShortUrl_loop example_platform None 0
     (after_dedup (str ''https://example.com/b'') example_race) =
     (Inr (Some (str ''000000''), 0),
      after_lookup example_platform (after_dedup (str ''https://example.com/b'') example_race))"
  "fst (query (INSERT_INTO_urls (Some (str ''000000''))
               (normalizeUrl (str ''https://example.com/b'')))
         (after_lookup example_platform
            (after_dedup (str ''https://example.com/b'') example_race))) =
     Inl (Database unique_violation)"
proof -
  define url where "url = str ''https://example.com/b''"
  define w1 where "w1 = after_dedup url example_race"
  have norm: "normalizeUrl url = url" "utf8 url = url" "0 \<notin> set url"
    by (simp_all add: url_def example_url)
  have neq: "url \<noteq> str ''https://example.com/a''"
    by (simp add: url_def str_def)
  show "query (SELECT_urls_WHERE_original_url (normalizeUrl (str ''https://example.com/b'')))
     example_race = (Inr [], after_dedup (str ''https://example.com/b'') example_race)"
    using query_dedup [of url example_race] neq neq [symmetric] norm
    by (simp add: url_def [symmetric] example_race_def example_world_def example_tables_def
        next_db_event_def)
  have code: "nth_code example_platform w1 0 = str ''000000''"
    by (simp add: nth_code_eq example_length w1_def after_dedup_def example_race_def
        example_world_def BASE62_CHARS_def str_def upt_rec)
  have free: "str ''000000'' \<notin> taken w1"
    by (simp add: taken_def w1_def after_dedup_def example_race_def example_world_def
        example_tables_def str_def)
  have "next_db_event w1 = Proceed"
    by (simp add: w1_def after_dedup_def example_race_def example_world_def next_db_event_def)
  then show "createShortUrl_loop example_platform None 0
     (after_dedup (str ''https://example.com/b'') example_race) =
     (Inr (Some (str ''000000''), 0),
      after_lookup example_platform (after_dedup (str ''https://example.com/b'') example_race))"
    using free
    by (simp add: loop_step code maxAttempts_def example_length
        w1_def [symmetric] url_def [symmetric])
  have "next_db_event (after_lookup example_platform w1) = Throw unique_violation"
    by (simp add: after_lookup_def w1_def after_dedup_def example_race_def example_world_def
        next_db_event_def)
  then show "fst (query (INSERT_INTO_urls (Some (str ''000000''))
               (normalizeUrl (str ''https://example.com/b'')))
         (after_lookup example_platform
            (after_dedup (str ''https://example.com/b'') example_race))) =
     Inl (Database unique_violation)"
    by (simp add: query_def Let_def w1_def [symmetric] url_def [symmetric])
qed

text \<open>The claim as stated fails: the insert is not inside a \<open>try\<close>, so a unique violation
  raised by it reaches the caller and no new code is tried.\<close>

theorem createShortUrl_surfaces_unique_violation:
  "fst (createShortUrl example_platform (str ''https://example.com/b'') example_race) =
     Inl (Database unique_violation)"
proof -
  obtain r w3 where q3: "query (INSERT_INTO_urls (Some (str ''000000''))
               (normalizeUrl (str ''https://example.com/b'')))
         (after_lookup example_platform
            (after_dedup (str ''https://example.com/b'') example_race)) = (r, w3)"
    by (cases "query (INSERT_INTO_urls (Some (str ''000000''))
               (normalizeUrl (str ''https://example.com/b'')))
         (after_lookup example_platform
            (after_dedup (str ''https://example.com/b'') example_race))")
  with example_race_steps(3) have "r = Inl (Database unique_violation)" by simp
  with q3 example_url(1) example_race_steps(1,2) show ?thesis
    by (simp add: createShortUrl_def maxAttempts_def)
qed

text \<open>
  The claim as stated fails: with a configured length of 11 the first generated code is
  free, and the insert of it fails, since the column holds 10 characters: there is neither
  a mapping nor the failure of the exhausted attempts.
\<close>

theorem createShortUrl_code_too_long:
  "isValidUrl example_long_codes (str ''https://example.com/b'') = Inr True
   \<and> nth_code example_long_codes example_world 0 = str ''00000000000''
   \<and> nth_code example_long_codes example_world 0 \<notin> taken example_world
   \<and> fst (createShortUrl example_long_codes (str ''https://example.com/b'') example_world) =
       Inl (Database string_data_right_truncation)
   \<and> db (snd (createShortUrl example_long_codes (str ''https://example.com/b'') example_world)) =
       db example_world"
proof -
  define url where "url = str ''https://example.com/b''"
  define P where "P = example_long_codes"
  define w1 where "w1 = after_dedup url example_world"
  have len: "SHORT_CODE_LENGTH P = 11"
    by (simp add: P_def SHORT_CODE_LENGTH_def example_long_codes_def example_platform_def)
  have valid: "isValidUrl P url = Inr True"
    using example_url(1)
    by (simp add: isValidUrl_def isValidUrl_try_def example_long_codes_def
        example_platform_def P_def url_def)
  have norm: "normalizeUrl url = url" "utf8 url = url" "0 \<notin> set url"
    by (simp_all add: url_def example_url)
  have neq: "url \<noteq> str ''https://example.com/a''"
    by (simp add: url_def str_def)
  have q1: "query (SELECT_urls_WHERE_original_url url) example_world = (Inr [], w1)"
    using query_dedup [of url example_world] neq neq [symmetric] norm
    by (simp add: w1_def example_world_def example_tables_def next_db_event_def)
  have code0: "nth_code P example_world 0 = str ''00000000000''"
    by (simp add: nth_code_eq len example_world_def BASE62_CHARS_def str_def upt_rec)
  have code: "nth_code P w1 0 = str ''00000000000''"
    using code0 by (simp add: w1_def after_dedup_fields)
  have free0: "str ''00000000000'' \<notin> taken example_world"
    by (simp add: taken_def example_world_def example_tables_def str_def)
  then have free: "str ''00000000000'' \<notin> taken w1"
    by (simp add: w1_def after_dedup_fields)
  have "next_db_event w1 = Proceed"
    by (simp add: w1_def after_dedup_def example_world_def next_db_event_def)
  then have l: "createShortUrl_loop P None 0 w1 =
      (Inr (Some (str ''00000000000''), 0), after_lookup P w1)"
    using free by (simp add: loop_step code maxAttempts_def len)
  have symbols: "set (str ''00000000000'') \<subseteq> set BASE62_CHARS"
    using nth_code_symbols [of P w1 0] by (simp add: code)
  have pr: "next_db_event (after_lookup P w1) = Proceed"
    by (simp add: after_lookup_def w1_def after_dedup_def example_world_def next_db_event_def)
  have long: "\<not> length (str ''00000000000'') \<le> 10"
    by (simp add: str_def)
  have q3: "query (INSERT_INTO_urls (Some (str ''00000000000'')) url) (after_lookup P w1) =
      (Inl (Database string_data_right_truncation),
       (after_lookup P w1)\<lparr>db_log := db_log (after_lookup P w1) @
            [INSERT_INTO_urls (Some (str ''00000000000'')) url],
          db_env := tl (db_env (after_lookup P w1))\<rparr>)"
    using pr long by (simp add: query_insert [OF symbols norm(3)])
  have res: "createShortUrl P url example_world =
      (Inl (Database string_data_right_truncation),
       (after_lookup P w1)\<lparr>db_log := db_log (after_lookup P w1) @
            [INSERT_INTO_urls (Some (str ''00000000000'')) url],
          db_env := tl (db_env (after_lookup P w1))\<rparr>)"
    using valid q1 l q3 by (simp add: createShortUrl_def norm maxAttempts_def)
  have "db (snd (createShortUrl P url example_world)) = db example_world"
    using res by (simp add: after_lookup_fields w1_def after_dedup_fields)
  with valid code0 free0 res show ?thesis
    by (simp add: P_def url_def)
qed

lemma example_crowded_facts:
  "utf8 (normalizeUrl (str ''https://example.com/b'')) \<notin>
     original_url ` set (urls (db example_crowded))"
  "db_env example_crowded = []"
  "taken example_crowded = {str ''000000''}"
  "nth_code example_platform example_crowded k = str ''000000''"
  "0 \<notin> set (normalizeUrl (str ''https://example.com/b''))"
  unfolding example_url(2) example_url(3)
  by (simp_all add: taken_def nth_code_eq example_length example_crowded_def
      example_world_def BASE62_CHARS_def str_def upt_rec)

lemma example_third_try_facts:
  "utf8 (normalizeUrl (str ''https://example.com/b'')) \<notin>
     original_url ` set (urls (db example_third_try))"
  "db_env example_third_try = []"
  "taken example_third_try = {str ''000000''}"
  "nth_code example_platform example_third_try 0 = str ''000000''"
  "nth_code example_platform example_third_try (Suc 0) = str ''000000''"
  "nth_code example_platform example_third_try 2 = str ''111111''"
  "clock example_third_try = 7"
  unfolding example_url(2) example_url(3)
  by (simp_all add: taken_def nth_code_eq example_length example_third_try_def
      example_crowded_def example_world_def BASE62_CHARS_def str_def upt_rec)

lemma less_2_cases_all: "(\<forall>j<2::nat. p j) \<longleftrightarrow> p 0 \<and> p (Suc 0)"
  by (auto simp: less_2_cases_iff)

theorem createShortUrl_collisions_witness:
  "fst (createShortUrl example_platform (str ''https://example.com/b'') example_crowded) =
     Inl Failed_to_generate_unique_short_code
   \<and> db (snd (createShortUrl example_platform (str ''https://example.com/b'') example_crowded)) =
       db example_crowded
   \<and> fst (createShortUrl example_platform (str ''https://example.com/b'') example_third_try) =
       Inr \<lparr>originalUrl = str ''https://example.com/b'', shortCode = str ''111111'',
            shortUrl = str ''http://localhost:3000/111111'', createdAt = Some 7, isNew = True\<rparr>"
proof -
  note c = createShortUrl_collisions [OF example_url(1) example_crowded_facts(5)
      example_crowded_facts(1,2) example_fits]
  have "\<forall>k<maxAttempts. nth_code example_platform example_crowded k \<in> taken example_crowded"
    by (simp add: example_crowded_facts(3,4))
  with c have 1: "fst (createShortUrl example_platform (str ''https://example.com/b'')
      example_crowded) = Inl Failed_to_generate_unique_short_code"
    by blast
  with c have 2: "db (snd (createShortUrl example_platform (str ''https://example.com/b'')
      example_crowded)) = db example_crowded"
    by blast
  note t = createShortUrl_collisions [OF example_url(1) example_crowded_facts(5)
      example_third_try_facts(1,2) example_fits]
  have third: "(2::nat) < maxAttempts"
    "\<forall>j<2. nth_code example_platform example_third_try j \<in> taken example_third_try"
    "nth_code example_platform example_third_try 2 \<notin> taken example_third_try"
    by (simp_all add: maxAttempts_def less_2_cases_all example_third_try_facts str_def)
  with t have 3: "fst (createShortUrl example_platform (str ''https://example.com/b'')
      example_third_try) =
      Inr \<lparr>originalUrl = utf8 (normalizeUrl (str ''https://example.com/b'')),
           shortCode = nth_code example_platform example_third_try 2,
           shortUrl = env_BASE_URL example_platform @ str ''/'' @
             nth_code example_platform example_third_try 2,
           createdAt = Some (clock example_third_try), isNew = True\<rparr>"
    by blast
  have "env_BASE_URL example_platform @ str ''/'' @ str ''111111'' =
      str ''http://localhost:3000/111111''"
    by (simp add: example_platform_def str_def)
  with 1 2 3 show ?thesis
    by (simp add: example_third_try_facts example_url(2,3))
qed

theorem createShortUrl_unique_violation_witness:
  "Throw unique_violation \<notin> set (db_env example_third_try)
   \<and> fst (createShortUrl example_platform (str ''https://example.com/b'') example_third_try) \<noteq>
       Inl (Database unique_violation)
   \<and> shortCode (projr (fst (createShortUrl example_platform (str ''https://example.com/b'')
        example_third_try))) = str ''111111''
   \<and> Throw unique_violation \<in> set (db_env example_race)
   \<and> fst (createShortUrl example_platform (str ''https://example.com/b'') example_race) =
       Inl (Database unique_violation)
   \<and> filter is_insert (issued example_race
        (snd (createShortUrl example_platform (str ''https://example.com/b'') example_race))) =
       [INSERT_INTO_urls (Some (str ''000000'')) (str ''https://example.com/b'')]"
proof -
  note t = createShortUrl_unique_violation [of example_third_try example_platform
      "str ''https://example.com/b''"]
  have env: "Throw unique_violation \<notin> set (db_env example_third_try)"
    by (simp add: example_third_try_facts)
  with t have 1: "fst (createShortUrl example_platform (str ''https://example.com/b'')
      example_third_try) \<noteq> Inl (Database unique_violation)"
    by blast
  have third: "(2::nat) < maxAttempts"
    "\<forall>j<2. nth_code example_platform example_third_try j \<in> taken example_third_try"
    "nth_code example_platform example_third_try 2 \<notin> taken example_third_try"
    by (simp_all add: maxAttempts_def less_2_cases_all example_third_try_facts str_def)
  with t example_url(1) example_crowded_facts(5) example_third_try_facts(1,2) example_fits
  have 2: "fst (createShortUrl example_platform (str ''https://example.com/b'')
      example_third_try) =
      Inr \<lparr>originalUrl = utf8 (normalizeUrl (str ''https://example.com/b'')),
           shortCode = nth_code example_platform example_third_try 2,
           shortUrl = env_BASE_URL example_platform @ str ''/'' @
             nth_code example_platform example_third_try 2,
           createdAt = Some (clock example_third_try), isNew = True\<rparr>"
    by blast
  define w2 where "w2 = after_lookup example_platform
      (after_dedup (str ''https://example.com/b'') example_race)"
  define ins where "ins = INSERT_INTO_urls (Some (str ''000000''))
      (normalizeUrl (str ''https://example.com/b''))"
  obtain r w3 where q3: "query ins w2 = (r, w3)"
    by (cases "query ins w2")
  with example_race_steps(3) have r: "r = Inl (Database unique_violation)"
    by (simp add: ins_def w2_def)
  have "(0::nat) \<noteq> maxAttempts" by (simp add: maxAttempts_def)
  with createShortUrl_unique_violation [of example_race example_platform
      "str ''https://example.com/b''" "after_dedup (str ''https://example.com/b'') example_race"
      "Some (str ''000000'')" 0 w2 "Database unique_violation" w3]
    example_url(1) example_race_steps(1,2) q3 r
  have 3: "createShortUrl example_platform (str ''https://example.com/b'') example_race =
      (Inl (Database unique_violation), w3)"
    unfolding ins_def w2_def by blast
  have log3: "db_log w3 = db_log w2 @ [ins]"
    by (rule query_frame(6) [OF q3])
  have code: "nth_code example_platform example_race 0 = str ''000000''"
    by (simp add: nth_code_eq example_length example_race_def example_world_def
        BASE62_CHARS_def str_def upt_rec)
  have log0: "db_log example_race = []"
    by (simp add: example_race_def example_world_def)
  have log2: "db_log w2 =
      [SELECT_urls_WHERE_original_url (str ''https://example.com/b''),
       SELECT_id_WHERE_short_code (str ''000000'')]"
    by (simp add: w2_def after_lookup_def after_dedup_fields code log0 example_url(2))
  have 4: "filter is_insert (issued example_race w3) =
      [INSERT_INTO_urls (Some (str ''000000'')) (str ''https://example.com/b'')]"
    using log3 log2
    by (simp add: issued_def ins_def example_url(2) log0)
  have 5: "Throw unique_violation \<in> set (db_env example_race)"
    by (simp add: example_race_def)
  from env 1 2 3 4 5 show ?thesis
    by (simp add: example_third_try_facts)
qed

end
